theory Spec2Isabelle
  imports Main "HOL-Library.AList"
begin

section \<open>JavaScript values\<close>

text \<open>
  The document that \<open>parse.js\<close> enriches is whatever \<open>JSON.parse\<close> returns: a tree of
  objects, arrays and primitive values, without sharing (a YAML file with anchors can load
  as a graph; the model does not cover it). An object is the list of its own
  properties in insertion order. An array carries, beside its elements, the named
  properties that JavaScript allows on it: \<open>JSON.parse\<close> creates none, but
  \<open>enrichSchema\<close> stores \<open>x-code-samples\<close> on whatever value sits below a path item, an
  array included (the \<open>parameters\<close> of a path item, say). \<open>JUndefined\<close> is the value
  of a missing property; the model also uses it for a hole of an array, which reads the
  same. Numbers are integers here (the code only tests a number for being zero), and a
  string is a list of 8-bit characters.
\<close>

datatype jsval =
    JUndefined
  | JNull
  | JBool bool
  | JNum int
  | JStr string
  | JArr "jsval list" "(string \<times> jsval) list"
  | JObj "(string \<times> jsval) list"

text \<open>
  What the code can throw: a \<open>TypeError\<close> of the language, the \<open>PropertyError\<close> class of
  \<open>parse.js\<close> (with the property it names), and whatever an outside collaborator (the
  snippet generator, a parser, the file system) raises.
\<close>

datatype js_error =
    TypeError
  | PropertyError string
  | External string

datatype completion = Normal | Throw js_error

text \<open>\<open>!v\<close> is true exactly when \<open>v\<close> is not truthy.\<close>

fun js_truthy :: "jsval \<Rightarrow> bool" where
  "js_truthy JUndefined = False"
| "js_truthy JNull = False"
| "js_truthy (JBool b) = b"
| "js_truthy (JNum n) = (n \<noteq> 0)"
| "js_truthy (JStr s) = (s \<noteq> [])"
| "js_truthy (JArr xs ps) = True"
| "js_truthy (JObj kvs) = True"

subsection \<open>Property keys\<close>

text \<open>
  Property keys are strings. A key is an array index when it is the canonical decimal
  numeral of a number below \<open>2^32 - 1 = 4294967295\<close>; \<open>indexKey\<close> is the key of an index.
\<close>

definition digitChar :: "nat \<Rightarrow> char" where
  "digitChar d = ''0123456789'' ! d"

definition isDigit :: "char \<Rightarrow> bool" where
  "isDigit c = (c \<in> set ''0123456789'')"

definition digitVal :: "char \<Rightarrow> int" where
  "digitVal c = of_char c - 48"

fun indexKey :: "nat \<Rightarrow> string" where
  "indexKey n = (if n < 10 then [digitChar n] else indexKey (n div 10) @ [digitChar (n mod 10)])"

declare indexKey.simps [simp del]

definition arrayIndex :: "string \<Rightarrow> nat option" where
  "arrayIndex s =
     (if s = [] \<or> \<not> list_all isDigit s \<or> (1 < length s \<and> hd s = CHR ''0'') then None
      else (let n = foldl (\<lambda>a c. 10 * a + digitVal c) 0 s
            in if n < 4294967295 then Some (nat n) else None))"

subsection \<open>Reading and writing properties\<close>

text \<open>
  \<open>v[k]\<close> for the keys the code reads: \<open>paths\<close>, the keys a \<open>for ... in\<close> loop yields,
  \<open>x-code-samples\<close> and array indices. None of them is inherited from a prototype, so
  the value is that of the own property, or \<open>undefined\<close>. Reading a property of
  \<open>null\<close> or \<open>undefined\<close> throws.
\<close>

definition lookup :: "(string \<times> jsval) list \<Rightarrow> string \<Rightarrow> jsval" where
  "lookup kvs k = (case map_of kvs k of None \<Rightarrow> JUndefined | Some v \<Rightarrow> v)"

fun js_get :: "jsval \<Rightarrow> string \<Rightarrow> js_error + jsval" where
  "js_get JUndefined k = Inl TypeError"
| "js_get JNull k = Inl TypeError"
| "js_get (JBool b) k = Inr JUndefined"
| "js_get (JNum n) k = Inr JUndefined"
| "js_get (JStr s) k =
     (case arrayIndex k of
        Some i \<Rightarrow> Inr (if i < length s then JStr [s ! i] else JUndefined)
      | None \<Rightarrow> Inr (if k = ''length'' then JNum (int (length s)) else JUndefined))"
| "js_get (JArr xs ps) k =
     (case arrayIndex k of
        Some i \<Rightarrow> Inr (if i < length xs then xs ! i else JUndefined)
      | None \<Rightarrow> Inr (if k = ''length'' then JNum (int (length xs)) else lookup ps k))"
| "js_get (JObj kvs) k = Inr (lookup kvs k)"

text \<open>
  \<open>v[i]\<close> where \<open>i\<close> is the key of the index \<open>i\<close>, as a \<open>for ... in\<close> loop over the
  generated snippets yields it (snippet sequences are far shorter than \<open>2^32 - 1\<close>).
\<close>

fun js_get_index :: "jsval \<Rightarrow> nat \<Rightarrow> js_error + jsval" where
  "js_get_index JUndefined i = Inl TypeError"
| "js_get_index JNull i = Inl TypeError"
| "js_get_index (JBool b) i = Inr JUndefined"
| "js_get_index (JNum n) i = Inr JUndefined"
| "js_get_index (JStr s) i = Inr (if i < length s then JStr [s ! i] else JUndefined)"
| "js_get_index (JArr xs ps) i = Inr (if i < length xs then xs ! i else JUndefined)"
| "js_get_index (JObj kvs) i = Inr (lookup kvs (indexKey i))"

text \<open>
  \<open>v[k] = x\<close> in strict mode (every variant of the script starts with \<open>'use strict'\<close>),
  for a key that is neither an array index nor \<open>length\<close>: the code uses it with
  \<open>x-code-samples\<close> only. A new property of an object comes last; an existing one keeps
  its place. Creating a property on a primitive value throws.
\<close>

fun js_set :: "jsval \<Rightarrow> string \<Rightarrow> jsval \<Rightarrow> js_error + jsval" where
  "js_set (JObj kvs) k x = Inr (JObj (AList.update k x kvs))"
| "js_set (JArr xs ps) k x = Inr (JArr xs (AList.update k x ps))"
| "js_set v k x = Inl TypeError"

text \<open>
  \<open>v[i] = x\<close> in strict mode for an index \<open>i\<close>. An array grows to hold the index; the
  indices it skips are holes.
\<close>

fun js_set_index :: "jsval \<Rightarrow> nat \<Rightarrow> jsval \<Rightarrow> js_error + jsval" where
  "js_set_index (JObj kvs) i x = Inr (JObj (AList.update (indexKey i) x kvs))"
| "js_set_index (JArr xs ps) i x =
     Inr (if i < length xs then JArr (xs[i := x]) ps
          else JArr (xs @ replicate (i - length xs) JUndefined @ [x]) ps)"
| "js_set_index v i x = Inl TypeError"

text \<open>
  The call \<open>v.hasOwnProperty(k)\<close>. The method is inherited from \<open>Object.prototype\<close>
  unless the value has an own property of that name, which then is no function, since a
  parsed document holds none.
\<close>

fun js_hasOwnProperty :: "jsval \<Rightarrow> string \<Rightarrow> js_error + bool" where
  "js_hasOwnProperty JUndefined k = Inl TypeError"
| "js_hasOwnProperty JNull k = Inl TypeError"
| "js_hasOwnProperty (JBool b) k = Inr False"
| "js_hasOwnProperty (JNum n) k = Inr False"
| "js_hasOwnProperty (JStr s) k =
     Inr (case arrayIndex k of Some i \<Rightarrow> i < length s | None \<Rightarrow> k = ''length'')"
| "js_hasOwnProperty (JArr xs ps) k =
     (if map_of ps ''hasOwnProperty'' \<noteq> None then Inl TypeError
      else Inr (case arrayIndex k of
                  Some i \<Rightarrow> i < length xs
                | None \<Rightarrow> k = ''length'' \<or> map_of ps k \<noteq> None))"
| "js_hasOwnProperty (JObj kvs) k =
     (if map_of kvs ''hasOwnProperty'' \<noteq> None then Inl TypeError
      else Inr (map_of kvs k \<noteq> None))"

text \<open>
  The keys \<open>for (const k in v)\<close> visits: array indices in ascending order, then the other
  keys in insertion order. Looping over \<open>null\<close>, \<open>undefined\<close>, a number or a boolean
  visits nothing.
\<close>

definition indexKeys :: "string list \<Rightarrow> string list" where
  "indexKeys ks = map indexKey (sort (remdups (List.map_filter arrayIndex ks)))"

definition namedKeys :: "string list \<Rightarrow> string list" where
  "namedKeys ks = filter (\<lambda>k. arrayIndex k = None) ks"

fun js_for_in :: "jsval \<Rightarrow> string list" where
  "js_for_in (JObj kvs) = indexKeys (map fst kvs) @ namedKeys (map fst kvs)"
| "js_for_in (JArr xs ps) = map indexKey [0..<length xs] @ map fst ps"
| "js_for_in (JStr s) = map indexKey [0..<length s]"
| "js_for_in v = []"

text \<open>
  The document is mutated in place. In the model a mutated child is put back where it
  was: \<open>js_put v k x\<close> is \<open>v\<close> with the child under the key \<open>k\<close> in its new state \<open>x\<close>.
  A value that holds no child under \<open>k\<close> stays as it is.
\<close>

fun js_put :: "jsval \<Rightarrow> string \<Rightarrow> jsval \<Rightarrow> jsval" where
  "js_put (JObj kvs) k x = JObj (AList.map_entry k (\<lambda>_. x) kvs)"
| "js_put (JArr xs ps) k x =
     (case arrayIndex k of
        Some i \<Rightarrow> JArr (if i < length xs then xs[i := x] else xs) ps
      | None \<Rightarrow> JArr xs (if k = ''length'' then ps else AList.map_entry k (\<lambda>_. x) ps))"
| "js_put v k x = v"

section \<open>Global variables and logging\<close>

text \<open>
  The script keeps the verbosity flag and the snippet targets in the global variables
  \<open>isVerbose\<close> and \<open>targets\<close>; the functions below read them from a record.
\<close>

record globals =
  isVerbose :: bool
  targets :: "string list"

definition validTargets :: "string list" where
  "validTargets =
     [''c_libcurl'', ''csharp_restsharp'', ''go_native'', ''java_okhttp'', ''java_unirest'',
      ''javascript_jquery'', ''javascript_xhr'', ''node_native'', ''node_request'',
      ''node_unirest'', ''objc_nsurlsession'', ''ocaml_cohttp'', ''php_curl'', ''php_http1'',
      ''php_http2'', ''python_python3'', ''python_requests'', ''ruby_native'', ''shell_curl'',
      ''shell_httpie'', ''shell_wget'', ''swift_nsurlsession'']"

text \<open>The value \<open>targets\<close> is initialised with (lines 415 to 423).\<close>

definition defaultTargets :: "string list" where
  "defaultTargets =
     [''php_curl'', ''javascript_xhr'', ''java_okhttp'', ''python_requests'',
      ''python_python3'', ''go_native'', ''shell_curl'']"

text \<open>
  \<open>logMessage\<close> prints a line on the console; the model keeps what it was called with
  (the text, the nesting depth and the message type). \<open>messageIfVerbose\<close> prints only
  when \<open>isVerbose\<close> is set.
\<close>

datatype MessageType = Progress | Usage | Complete | Warning | Erroneous

type_synonym message = "string \<times> nat \<times> MessageType"

definition logMessage :: "string \<Rightarrow> nat \<Rightarrow> MessageType \<Rightarrow> message list \<Rightarrow> message list" where
  "logMessage msg nesting message_method console = console @ [(msg, nesting, message_method)]"

definition messageIfVerbose ::
  "'a globals_scheme \<Rightarrow> string \<Rightarrow> nat \<Rightarrow> MessageType \<Rightarrow> message list \<Rightarrow> message list" where
  "messageIfVerbose g msg nesting message_method console =
     (if isVerbose g then logMessage msg nesting message_method console else console)"

text \<open>A text between single quotes, as the messages of the script have it.\<close>

definition quoted :: "string \<Rightarrow> string" where
  "quoted s = CHR 0x27 # s @ [CHR 0x27]"

section \<open>The enrichment engine\<close>

text \<open>
  The snippet generator \<open>OpenAPISnippet.getEndpointSnippets\<close> is an outside library: a
  parameter of the model. It is given the document, a path, a method and the targets, and
  returns the snippets (the \<open>snippets\<close> array of its result) or throws.
\<close>

record snippet =
  title :: string
  content :: string

type_synonym generator =
  "jsval \<Rightarrow> string \<Rightarrow> string \<Rightarrow> string list \<Rightarrow> js_error + snippet list"

definition sample :: "snippet \<Rightarrow> jsval" where
  "sample s = JObj [(''lang'', JStr (title s)), (''source'', JStr (content s))]"

text \<open>
  Lines 494 to 499 of \<open>parse.js\<close>, on the operation \<open>schema.paths[path][method]\<close>: the
  field \<open>x-code-samples\<close> is set to an empty array unless it holds a truthy value.
\<close>

definition initCodeSamples ::
  "'a globals_scheme \<Rightarrow> jsval \<times> message list \<Rightarrow> (jsval \<times> message list) \<times> completion" where
  "initCodeSamples g = (\<lambda>(operation, console).
     case js_get operation ''x-code-samples'' of
       Inl e \<Rightarrow> ((operation, console), Throw e)
     | Inr field \<Rightarrow>
         if \<not> js_truthy field then
           (let console1 = messageIfVerbose g
                  (''Added '' @ quoted ''x-code-samples'' @ '' field.'') 1 Complete console
            in case js_set operation ''x-code-samples'' (JArr [] []) of
                 Inl e \<Rightarrow> ((operation, console1), Throw e)
               | Inr operation' \<Rightarrow> ((operation', console1), Normal))
         else
           ((operation, messageIfVerbose g
               (quoted ''x-code-samples'' @ '' field already exists, skipping.'') 1 Warning console),
            Normal))"

text \<open>
  Lines 500 to 509: the loop over the generated snippets, from the index \<open>snippetIdx\<close>
  on. A snippet is written at its index unless the entry there is truthy.
\<close>

fun addSnippets ::
  "'a globals_scheme \<Rightarrow> string \<Rightarrow> nat \<Rightarrow> snippet list \<Rightarrow> jsval \<times> message list
     \<Rightarrow> (jsval \<times> message list) \<times> completion" where
  "addSnippets g path snippetIdx [] st = (st, Normal)"
| "addSnippets g path snippetIdx (snippet # rest) (operation, console) =
     (let console1 = messageIfVerbose g
            (''Checking existance of '' @ quoted (title snippet) @ '' field...'') 1 Progress console
      in case js_get operation ''x-code-samples'' of
           Inl e \<Rightarrow> ((operation, console1), Throw e)
         | Inr samples \<Rightarrow>
             (case js_get_index samples snippetIdx of
                Inl e \<Rightarrow> ((operation, console1), Throw e)
              | Inr entry \<Rightarrow>
                  if \<not> js_truthy entry then
                    (let console2 = messageIfVerbose g
                           (''Added '' @ quoted (title snippet) @ '' field.'') 2 Complete console1
                     in case js_set_index samples snippetIdx (sample snippet) of
                          Inl e \<Rightarrow> ((operation, console2), Throw e)
                        | Inr samples' \<Rightarrow>
                            addSnippets g path (Suc snippetIdx) rest
                              (js_put operation ''x-code-samples'' samples', console2))
                  else
                    addSnippets g path (Suc snippetIdx) rest
                      (operation,
                       logMessage (''Field '' @ quoted (title snippet) @ '' already exists in ''
                                   @ quoted path @ '' path, skipping.'') 2 Warning console1)))"

text \<open>The two steps on one operation, the second only when the first did not throw.\<close>

definition enrichOperation ::
  "'a globals_scheme \<Rightarrow> string \<Rightarrow> snippet list \<Rightarrow> jsval \<times> message list
     \<Rightarrow> (jsval \<times> message list) \<times> completion" where
  "enrichOperation g path snippets st =
     (case initCodeSamples g st of
        (st1, Normal) \<Rightarrow> addSnippets g path 0 snippets st1
      | (st1, Throw e) \<Rightarrow> (st1, Throw e))"

text \<open>
  \<open>schema.paths[path][method]\<close>, and the document with that operation in a new state.
\<close>

definition operationAt :: "jsval \<Rightarrow> string \<Rightarrow> string \<Rightarrow> js_error + jsval" where
  "operationAt schema path method =
     (case js_get schema ''paths'' of
        Inl e \<Rightarrow> Inl e
      | Inr paths \<Rightarrow>
          (case js_get paths path of
             Inl e \<Rightarrow> Inl e
           | Inr item \<Rightarrow> js_get item method))"

definition putOperation :: "jsval \<Rightarrow> string \<Rightarrow> string \<Rightarrow> jsval \<Rightarrow> jsval" where
  "putOperation schema path method operation =
     (case js_get schema ''paths'' of
        Inl e \<Rightarrow> schema
      | Inr paths \<Rightarrow>
          (case js_get paths path of
             Inl e \<Rightarrow> schema
           | Inr item \<Rightarrow>
               js_put schema ''paths'' (js_put paths path (js_put item method operation))))"

text \<open>
  Lines 492 to 509: the body of the inner loop, for one path and one method. The
  generator runs first, on the document as it is then.
\<close>

definition enrichEndpoint ::
  "'a globals_scheme \<Rightarrow> generator \<Rightarrow> string \<Rightarrow> string \<Rightarrow> jsval \<times> message list
     \<Rightarrow> (jsval \<times> message list) \<times> completion" where
  "enrichEndpoint g gen path method = (\<lambda>(schema, console).
     case gen schema path method (targets g) of
       Inl e \<Rightarrow> ((schema, console), Throw e)
     | Inr snippets \<Rightarrow>
         (let console1 = messageIfVerbose g
                (''Checking existance of '' @ quoted ''x-code-samples'' @ '' field in '' @ path
                 @ '' path...'') 1 Progress console
          in case operationAt schema path method of
               Inl e \<Rightarrow> ((schema, console1), Throw e)
             | Inr operation \<Rightarrow>
                 (case enrichOperation g path snippets (operation, console1) of
                    ((operation', console'), c) \<Rightarrow>
                      ((putOperation schema path method operation', console'), c))))"

text \<open>The inner loop (line 491) over the keys of a path item, and the outer one (line 490).\<close>

fun enrichMethods ::
  "'a globals_scheme \<Rightarrow> generator \<Rightarrow> string \<Rightarrow> string list \<Rightarrow> jsval \<times> message list
     \<Rightarrow> (jsval \<times> message list) \<times> completion" where
  "enrichMethods g gen path [] st = (st, Normal)"
| "enrichMethods g gen path (method # methods) st =
     (case enrichEndpoint g gen path method st of
        (st1, Normal) \<Rightarrow> enrichMethods g gen path methods st1
      | (st1, Throw e) \<Rightarrow> (st1, Throw e))"

definition methodKeys :: "jsval \<Rightarrow> string \<Rightarrow> js_error + string list" where
  "methodKeys schema path =
     (case js_get schema ''paths'' of
        Inl e \<Rightarrow> Inl e
      | Inr paths \<Rightarrow>
          (case js_get paths path of
             Inl e \<Rightarrow> Inl e
           | Inr item \<Rightarrow> Inr (js_for_in item)))"

fun enrichPaths ::
  "'a globals_scheme \<Rightarrow> generator \<Rightarrow> string list \<Rightarrow> jsval \<times> message list
     \<Rightarrow> (jsval \<times> message list) \<times> completion" where
  "enrichPaths g gen [] st = (st, Normal)"
| "enrichPaths g gen (path # paths) (schema, console) =
     (case methodKeys schema path of
        Inl e \<Rightarrow> ((schema, console), Throw e)
      | Inr methods \<Rightarrow>
          (case enrichMethods g gen path methods (schema, console) of
             (st1, Normal) \<Rightarrow> enrichPaths g gen paths st1
           | (st1, Throw e) \<Rightarrow> (st1, Throw e)))"

text \<open>
  \<open>enrichSchema\<close> (lines 486 to 514). The result is the document and the console as the
  call leaves them, and how the call ended: \<open>Normal\<close> when it returned (the document
  itself, line 513), \<open>Throw\<close> when it threw.
\<close>

definition enrichSchema ::
  "'a globals_scheme \<Rightarrow> generator \<Rightarrow> jsval \<times> message list
     \<Rightarrow> (jsval \<times> message list) \<times> completion" where
  "enrichSchema g gen = (\<lambda>(schema, console).
     case js_hasOwnProperty schema ''paths'' of
       Inl e \<Rightarrow> ((schema, console), Throw e)
     | Inr False \<Rightarrow> ((schema, console), Throw (PropertyError ''paths''))
     | Inr True \<Rightarrow>
         (case js_get schema ''paths'' of
            Inl e \<Rightarrow> ((schema, console), Throw e)
          | Inr paths \<Rightarrow> enrichPaths g gen (js_for_in paths) (schema, console)))"

section \<open>The run of the script\<close>

text \<open>
  What lies outside the script: the file system (its state is of an arbitrary type
  \<open>'fs\<close>), the two parsers, the serialiser, the hash of \<open>object-hash\<close> and the
  snippet generator. Every call to the file system is also recorded, in order.
\<close>

datatype io_event =
    ExistsSync string
  | UnlinkSync string
  | ReadFile string
  | WriteFile string string

record 'fs env =
  existsSync :: "'fs \<Rightarrow> string \<Rightarrow> bool"
  unlinkSync :: "'fs \<Rightarrow> string \<Rightarrow> js_error + 'fs"
  readFile :: "'fs \<Rightarrow> string \<Rightarrow> js_error + string"
  writeFile :: "'fs \<Rightarrow> string \<Rightarrow> string \<Rightarrow> js_error + 'fs"
  safeLoad :: "string \<Rightarrow> js_error + jsval"
  JSON_parse :: "string \<Rightarrow> js_error + jsval"
  JSON_stringify :: "jsval \<Rightarrow> string"
  hash :: "jsval \<Rightarrow> string"
  getEndpointSnippets :: generator

text \<open>
  The state of the process: the two global variables, what was printed, the file system,
  the calls made to it, and whether the process still runs, has called \<open>process.exit\<close>,
  or died of an exception nobody caught.
\<close>

datatype ending = Running | Exit nat | Uncaught js_error

record 'fs process = globals +
  printed :: "message list"
  files :: 'fs
  io :: "io_event list"
  ending :: ending

definition say :: "string \<Rightarrow> nat \<Rightarrow> MessageType \<Rightarrow> 'fs process \<Rightarrow> 'fs process" where
  "say msg nesting message_method p = p\<lparr>printed := logMessage msg nesting message_method (printed p)\<rparr>"

definition exit :: "nat \<Rightarrow> 'fs process \<Rightarrow> 'fs process" where
  "exit code p = p\<lparr>ending := Exit code\<rparr>"

definition called :: "io_event \<Rightarrow> 'fs process \<Rightarrow> 'fs process" where
  "called ev p = p\<lparr>io := io p @ [ev]\<rparr>"

definition andThen :: "'fs process \<Rightarrow> ('fs process \<Rightarrow> 'fs process) \<Rightarrow> 'fs process" where
  "andThen p f = (if ending p = Running then f p else p)"

text \<open>What the console shows of an error object, up to its stack.\<close>

fun errorText :: "js_error \<Rightarrow> string" where
  "errorText TypeError = ''TypeError''"
| "errorText (PropertyError property) = ''PropertyError: Non-existent property: '' @ property"
| "errorText (External msg) = msg"

definition usageText :: string where
  "usageText =
     ''npm run add-examples <swagger/openapi specification> <output destination> {[targets]} {options}''
     @ [CHR 0x0A]"

definition endsWith :: "string \<Rightarrow> string \<Rightarrow> bool" where
  "endsWith s t = (length t \<le> length s \<and> drop (length s - length t) s = t)"

text \<open>\<open>Array.prototype.join\<close>, and \<open>String.prototype.replace\<close> with a string pattern.\<close>

fun joinWith :: "string \<Rightarrow> string list \<Rightarrow> string" where
  "joinWith sep [] = []"
| "joinWith sep [x] = x"
| "joinWith sep (x # y # ys) = x @ sep @ joinWith sep (y # ys)"

fun replaceFirst :: "string \<Rightarrow> string \<Rightarrow> string \<Rightarrow> string" where
  "replaceFirst pat rep [] = (if pat = [] then rep else [])"
| "replaceFirst pat rep (c # cs) =
     (if take (length pat) (c # cs) = pat then rep @ drop (length pat) (c # cs)
      else c # replaceFirst pat rep cs)"

text \<open>\<open>checkParameters\<close> (lines 523 to 542).\<close>

definition checkParameters :: "string list \<Rightarrow> 'fs process \<Rightarrow> 'fs process" where
  "checkParameters argv p =
     (if length argv < 3 then
        exit 1 (say usageText 0 Usage
          (say ''Please pass the OpenAPI JSON raw specification file name as argument.'' 0 Erroneous p))
      else if length argv < 4 then
        exit 1 (say usageText 0 Usage (say ''Please specify an output file.'' 0 Erroneous p))
      else if last argv = ''-v'' \<or> last argv = ''--verbose'' then
        (say ''Switching to verbose logging'' 0 Progress p)\<lparr>isVerbose := True\<rparr>
      else p)"

text \<open>
  \<open>configureTargets\<close> (lines 550 to 570). \<open>targetsToCheck\<close> is
  \<open>process.argv.slice(4, isVerbose ? process.argv.length - 1 : process.argv.length)\<close>, and
  \<open>checkTargets\<close> is the loop over it.
\<close>

definition targetsToCheck :: "string list \<Rightarrow> 'fs process \<Rightarrow> string list" where
  "targetsToCheck argv p = drop 4 (take (if isVerbose p then length argv - 1 else length argv) argv)"

fun checkTargets :: "string list \<Rightarrow> 'fs process \<Rightarrow> 'fs process" where
  "checkTargets [] p = p"
| "checkTargets (target # rest) p =
     (if target \<notin> set validTargets then
        exit 1 (say (''Target '' @ quoted target @ '' is not valid'') 0 Erroneous p)
      else checkTargets rest p)"

definition configureTargets :: "string list \<Rightarrow> 'fs process \<Rightarrow> 'fs process" where
  "configureTargets argv p =
     (if 4 < length argv then
        (let p1 = say ''Validating targets...'' 0 Progress p in
         if argv ! 4 = ''default'' then say ''Default specified, skipping.'' 1 Complete p1
         else
           andThen (checkTargets (targetsToCheck argv p1) p1)
             (\<lambda>p2. say ''All specified targets are valid'' 1 Complete
                     (p2\<lparr>targets := targetsToCheck argv p1\<rparr>)))
      else
        say (''No targets specified, defaulting to internally specified:''
             @ joinWith '','' (map (\<lambda>v. '' '' @ v) (targets p))) 0 Warning p)"

text \<open>\<open>checkOutputFileType\<close> (lines 577 to 583).\<close>

definition checkOutputFileType :: "string \<Rightarrow> 'fs process \<Rightarrow> 'fs process" where
  "checkOutputFileType final_spec_file p =
     (if \<not> endsWith final_spec_file ''json'' then
        exit 1 (say usageText 0 Usage (say ''Only JSON format is supported for output.'' 0 Erroneous p))
      else p)"

text \<open>
  \<open>removeExistingFinalSpec\<close> (lines 590 to 604); \<open>specPath\<close> is the global constant
  \<open>process.argv[3]\<close>.
\<close>

definition removeExistingFinalSpec ::
  "'fs env \<Rightarrow> string \<Rightarrow> string \<Rightarrow> 'fs process \<Rightarrow> 'fs process" where
  "removeExistingFinalSpec env specPath final_spec_file p =
     (let p1 = called (ExistsSync (''./'' @ specPath))
                 (say ''Checking if specification.json exists'' 0 Progress p)
      in if existsSync env (files p1) (''./'' @ specPath) then
           (let p2 = called (UnlinkSync (''./'' @ specPath))
                       (say (final_spec_file @ '' exists, removing...'') 1 Progress p1)
            in case unlinkSync env (files p2) (''./'' @ specPath) of
                 Inl err \<Rightarrow> exit 1 (say (errorText err) 0 Erroneous p2)
               | Inr fs' \<Rightarrow> say (final_spec_file @ '' removed'') 1 Complete (p2\<lparr>files := fs'\<rparr>))
         else say (final_spec_file @ '' does not exist, continuing'') 1 Complete p1)"

text \<open>
  \<open>addSamplesExport\<close> (lines 612 to 620). Its second argument is the name of the output
  file, but the YAML branch passes three arguments, so that there it receives the array
  \<open>targets\<close>, which has no method \<open>replace\<close>. The digest of \<open>object-hash\<close> is
  hexadecimal, so it holds none of the patterns \<open>replace\<close> expands in a replacement.
\<close>

datatype argument = Name string | List "string list"

definition addSamplesExport ::
  "'fs env \<Rightarrow> jsval \<Rightarrow> argument \<Rightarrow> 'fs process \<Rightarrow> 'fs process \<times> completion" where
  "addSamplesExport env schema final_spec_file p =
     (let p1 = say (''Adding samples for ''
                    @ concat (map (\<lambda>c. if c = CHR '','' then '', '' else [c])
                                (joinWith '','' (targets p)))
                    @ ''...'') 1 Progress p
      in case enrichSchema p1 (getEndpointSnippets env) (schema, printed p1) of
           ((schema', console), Throw e) \<Rightarrow> (p1\<lparr>printed := console\<rparr>, Throw e)
         | ((schema', console), Normal) \<Rightarrow>
             (let p2 = p1\<lparr>printed := console\<rparr> in
              case final_spec_file of
                List xs \<Rightarrow> (p2, Throw TypeError)
              | Name name \<Rightarrow>
                  (let filename_with_hash = replaceFirst ''[contenthash]'' (hash env schema') name;
                       p3 = called (WriteFile filename_with_hash (JSON_stringify env schema')) p2
                   in case writeFile env (files p3) filename_with_hash (JSON_stringify env schema') of
                        Inl err \<Rightarrow> (p3, Throw err)
                      | Inr fs' \<Rightarrow>
                          (say (''Added samples and exported to: '' @ name) 2 Complete
                             (p3\<lparr>files := fs'\<rparr>), Normal))))"

text \<open>\<open>processYAMLSpecification\<close> (lines 628 to 633) and \<open>processJSONSpecification\<close>.\<close>

definition processYAMLSpecification ::
  "'fs env \<Rightarrow> string \<Rightarrow> string \<Rightarrow> 'fs process \<Rightarrow> 'fs process \<times> completion" where
  "processYAMLSpecification env raw_spec_file final_spec_file p =
     (let p1 = called (ReadFile raw_spec_file) (say ''Converting YAML file...'' 0 Progress p)
      in case readFile env (files p1) raw_spec_file of
           Inl err \<Rightarrow> (p1, Throw err)
         | Inr text \<Rightarrow>
             (case safeLoad env text of
                Inl err \<Rightarrow> (p1, Throw err)
              | Inr schema \<Rightarrow>
                  (let p2 = say ''Converted YAML file'' 1 Complete p1
                   in addSamplesExport env schema (List (targets p2)) p2)))"

definition processJSONSpecification ::
  "'fs env \<Rightarrow> string \<Rightarrow> string \<Rightarrow> 'fs process \<Rightarrow> 'fs process \<times> completion" where
  "processJSONSpecification env raw_spec_file final_spec_file p =
     (let p1 = called (ReadFile raw_spec_file) (say ''Parsing JSON file...'' 0 Progress p)
      in case readFile env (files p1) raw_spec_file of
           Inl err \<Rightarrow> (p1, Throw err)
         | Inr text \<Rightarrow>
             (case JSON_parse env text of
                Inl err \<Rightarrow> (p1, Throw err)
              | Inr schema \<Rightarrow>
                  (let p2 = say ''Parsed JSON file'' 1 Complete p1
                   in addSamplesExport env schema (Name final_spec_file) p2)))"

text \<open>
  \<open>processSpecificationToFile\<close> (lines 659 to 676). What the YAML branch throws is
  caught, printed and ends the process with code 1. The JSON branch does its work in
  the callback of \<open>fs.readFile\<close>, where nothing catches what is thrown.
\<close>

definition processSpecificationToFile ::
  "'fs env \<Rightarrow> string \<Rightarrow> string \<Rightarrow> 'fs process \<Rightarrow> 'fs process" where
  "processSpecificationToFile env raw_spec_file final_spec_file p =
     (if endsWith raw_spec_file ''yml'' \<or> endsWith raw_spec_file ''yaml'' then
        (case processYAMLSpecification env raw_spec_file final_spec_file p of
           (p', Normal) \<Rightarrow> p'
         | (p', Throw e) \<Rightarrow> exit 1 (say (errorText e) 0 Erroneous p'))
      else
        (case processJSONSpecification env raw_spec_file final_spec_file p of
           (p', Normal) \<Rightarrow> p'
         | (p', Throw e) \<Rightarrow> p'\<lparr>ending := Uncaught e\<rparr>))"

text \<open>
  \<open>processInputs\<close> (lines 681 to 689). The two file names are read from \<open>process.argv\<close>
  first, and used only once \<open>checkParameters\<close> has found them there.
\<close>

definition processInputs :: "'fs env \<Rightarrow> string list \<Rightarrow> 'fs process \<Rightarrow> 'fs process" where
  "processInputs env argv p =
     (let raw_spec_file = argv ! 2; final_spec_file = argv ! 3 in
      andThen (andThen (andThen (andThen
        (checkParameters argv p)
        (configureTargets argv))
        (checkOutputFileType final_spec_file))
        (removeExistingFinalSpec env final_spec_file final_spec_file))
        (processSpecificationToFile env raw_spec_file final_spec_file))"

text \<open>
  The script: the globals as they are initialised (lines 386 and 415), then
  \<open>processInputs()\<close>; a process that runs to its end leaves with code 0.
\<close>

definition start :: "'fs \<Rightarrow> 'fs process" where
  "start fs = \<lparr>isVerbose = False, targets = defaultTargets, printed = [], files = fs, io = [],
              ending = Running\<rparr>"

definition script :: "'fs env \<Rightarrow> string list \<Rightarrow> 'fs \<Rightarrow> 'fs process" where
  "script env argv fs = andThen (processInputs env argv (start fs)) (exit 0)"

section \<open>What enrichment changes, and what it keeps\<close>

text \<open>
  \<open>withoutSamples\<close> is a document with the property \<open>x-code-samples\<close> deleted from every
  value two levels below \<open>paths\<close>, that is, from every \<open>schema.paths[path][method]\<close>.
  Two documents with the same image differ in those properties only.
\<close>

fun stripOperation :: "jsval \<Rightarrow> jsval" where
  "stripOperation (JObj kvs) = JObj (AList.delete ''x-code-samples'' kvs)"
| "stripOperation (JArr xs ps) = JArr xs (AList.delete ''x-code-samples'' ps)"
| "stripOperation v = v"

fun mapChildren :: "(jsval \<Rightarrow> jsval) \<Rightarrow> jsval \<Rightarrow> jsval" where
  "mapChildren f (JObj kvs) = JObj (map (\<lambda>kv. (fst kv, f (snd kv))) kvs)"
| "mapChildren f (JArr xs ps) = JArr (map f xs) (map (\<lambda>kv. (fst kv, f (snd kv))) ps)"
| "mapChildren f v = v"

definition underPaths :: "(jsval \<Rightarrow> jsval) \<Rightarrow> string \<times> jsval \<Rightarrow> string \<times> jsval" where
  "underPaths f kv = (fst kv, if fst kv = ''paths'' then f (snd kv) else snd kv)"

fun withoutSamples :: "jsval \<Rightarrow> jsval" where
  "withoutSamples (JObj kvs) = JObj (map (underPaths (mapChildren (mapChildren stripOperation))) kvs)"
| "withoutSamples (JArr xs ps) = JArr xs (map (underPaths (mapChildren (mapChildren stripOperation))) ps)"
| "withoutSamples v = v"

text \<open>
  The relations below serve the proofs. \<open>keeps x x'\<close>: the samples \<open>x'\<close> hold every truthy
  entry of \<open>x\<close> at its index, and an array stays an array that is no shorter.
  \<open>opKeeps a b\<close>: the operation \<open>b\<close> is \<open>a\<close> up to \<open>x-code-samples\<close>, whose truthy
  value, if any, is kept in that sense. \<open>operationStep a b\<close>: lines 494 to 509 turn the
  operation \<open>a\<close> into \<open>b\<close>, for some snippets, and \<open>opStep\<close> does so in any number of
  rounds. \<open>valueRel\<close> relates two values with the same keys whose children are related,
  and \<open>docRel\<close> two documents whose operations are related by \<open>opStep\<close>.
\<close>

definition keeps :: "jsval \<Rightarrow> jsval \<Rightarrow> bool" where
  "keeps x x' =
     ((js_truthy x \<longrightarrow> js_truthy x') \<and>
      (\<forall>i e. js_get_index x i = Inr e \<and> js_truthy e \<longrightarrow> js_get_index x' i = Inr e) \<and>
      (\<forall>xs ps. x = JArr xs ps \<longrightarrow> (\<exists>xs'. x' = JArr xs' ps \<and> length xs \<le> length xs')))"

definition opKeeps :: "jsval \<Rightarrow> jsval \<Rightarrow> bool" where
  "opKeeps a b =
     (stripOperation a = stripOperation b \<and>
      (\<forall>x. js_get a ''x-code-samples'' = Inr x \<and> js_truthy x \<longrightarrow>
           (\<exists>x'. js_get b ''x-code-samples'' = Inr x' \<and> keeps x x')))"

definition operationStep :: "jsval \<Rightarrow> jsval \<Rightarrow> bool" where
  "operationStep a b =
     (\<exists>v path snippets console console' c.
        enrichOperation \<lparr>isVerbose = v, targets = []\<rparr> path snippets (a, console)
          = ((b, console'), c))"

definition opStep :: "jsval \<Rightarrow> jsval \<Rightarrow> bool" where
  "opStep = rtranclp operationStep"

definition entriesRel :: "(string \<Rightarrow> jsval \<Rightarrow> jsval \<Rightarrow> bool) \<Rightarrow> (string \<times> jsval) list \<Rightarrow> (string \<times> jsval) list \<Rightarrow> bool" where
  "entriesRel Q kvs kvs' = list_all2 (\<lambda>a b. fst a = fst b \<and> Q (fst a) (snd a) (snd b)) kvs kvs'"

fun valueRel :: "(jsval \<Rightarrow> jsval \<Rightarrow> bool) \<Rightarrow> (string \<Rightarrow> jsval \<Rightarrow> jsval \<Rightarrow> bool) \<Rightarrow> jsval \<Rightarrow> jsval \<Rightarrow> bool" where
  "valueRel E Q (JObj kvs) (JObj kvs') = entriesRel Q kvs kvs'"
| "valueRel E Q (JArr xs ps) (JArr xs' ps') = (list_all2 E xs xs' \<and> entriesRel Q ps ps')"
| "valueRel E Q v v' = (v = v')"

definition childRel :: "(jsval \<Rightarrow> jsval \<Rightarrow> bool) \<Rightarrow> jsval \<Rightarrow> jsval \<Rightarrow> bool" where
  "childRel R = valueRel R (\<lambda>k. R)"

definition pathsRel :: "(jsval \<Rightarrow> jsval \<Rightarrow> bool) \<Rightarrow> jsval \<Rightarrow> jsval \<Rightarrow> bool" where
  "pathsRel R = valueRel (=) (\<lambda>k. if k = ''paths'' then R else (=))"

definition docRel :: "jsval \<Rightarrow> jsval \<Rightarrow> bool" where
  "docRel = pathsRel (childRel (childRel opStep))"

fun isContainer :: "jsval \<Rightarrow> bool" where
  "isContainer (JObj kvs) = True"
| "isContainer (JArr xs ps) = True"
| "isContainer v = False"

text \<open>
  \<open>atEndpoint P p m d\<close>: the document \<open>d\<close> has an operation at the path \<open>p\<close> and the
  method \<open>m\<close>, and \<open>P\<close> holds of it. An operation is \<open>saturated\<close> for \<open>n\<close> snippets
  when its samples are truthy and hold a truthy entry at every index below \<open>n\<close>. An
  operation is \<open>pending\<close> when it is the object with the properties \<open>kvs\<close> and its
  samples are not truthy, and \<open>filled\<close> when it is that object with its samples replaced
  by an array of generated samples. \<open>slotAt ps i\<close>: the samples are an array with the named
  properties \<open>ps\<close> whose entry at \<open>i\<close> is not truthy or is a generated sample;
  \<open>sampleAt ps i\<close>: it is a generated sample.
  \<open>noWrite\<close>: the console grew by messages none of which reports an addition.
\<close>

definition atEndpoint :: "(jsval \<Rightarrow> bool) \<Rightarrow> string \<Rightarrow> string \<Rightarrow> jsval \<Rightarrow> bool" where
  "atEndpoint P p m d = (\<exists>operation. operationAt d p m = Inr operation \<and> P operation)"

definition saturated :: "nat \<Rightarrow> jsval \<Rightarrow> bool" where
  "saturated n operation =
     (\<exists>x. js_get operation ''x-code-samples'' = Inr x \<and> js_truthy x \<and>
          (\<forall>i<n. \<exists>e. js_get_index x i = Inr e \<and> js_truthy e))"





definition noWrite :: "message list \<Rightarrow> message list \<Rightarrow> bool" where
  "noWrite console console' =
     (\<exists>msgs. console' = console @ msgs \<and> Complete \<notin> (snd \<circ> snd) ` set msgs)"

text \<open>
  The contract of the snippet generator (section 1 of the specification: one example per
  requested target): whenever it returns, it returns as many snippets as it was given
  targets.
\<close>

definition onePerTarget :: "generator \<Rightarrow> bool" where
  "onePerTarget gen =
     (\<forall>schema path method ts snippets.
        gen schema path method ts = Inr snippets \<longrightarrow> length snippets = length ts)"

section \<open>Inputs of the examples\<close>

text \<open>
  A machine without files, whose collaborators all fail or return nothing, and the
  document of the end-to-end example of the specification before and after enrichment.
\<close>

definition emptyDisk :: "unit env" where
  "emptyDisk =
     \<lparr>existsSync = (\<lambda>fs name. False),
      unlinkSync = (\<lambda>fs name. Inl (External ''ENOENT'')),
      readFile = (\<lambda>fs name. Inl (External ''ENOENT'')),
      writeFile = (\<lambda>fs name data. Inr fs),
      safeLoad = (\<lambda>text. Inl (External ''YAMLException'')),
      JSON_parse = (\<lambda>text. Inl (External ''SyntaxError'')),
      JSON_stringify = (\<lambda>v. []),
      hash = (\<lambda>v. []),
      getEndpointSnippets = (\<lambda>schema path method targets. Inr [])\<rparr>"

definition quiet :: globals where
  "quiet = \<lparr>isVerbose = False, targets = [''shell_curl'']\<rparr>"

definition curlSnippet :: snippet where
  "curlSnippet = \<lparr>title = ''shell_curl'', content = ''curl ...''\<rparr>"

definition curlGenerator :: generator where
  "curlGenerator = (\<lambda>schema path method ts. Inr [curlSnippet])"

definition petsDocument :: jsval where
  "petsDocument = JObj [(''paths'', JObj [(''/pets'', JObj [(''get'', JObj [])])])]"

definition petsEnriched :: jsval where
  "petsEnriched =
     JObj [(''paths'', JObj [(''/pets'', JObj [(''get'',
       JObj [(''x-code-samples'',
              JArr [JObj [(''lang'', JStr ''shell_curl''), (''source'', JStr ''curl ...'')]] [])])])])]"

definition petsWith :: "jsval \<Rightarrow> jsval" where
  "petsWith operation = JObj [(''paths'', JObj [(''/pets'', JObj [(''get'', operation)])])]"

definition rubySample :: jsval where
  "rubySample = JObj [(''lang'', JStr ''ruby''), (''source'', JStr ''puts 1'')]"

definition shadowedDocument :: jsval where
  "shadowedDocument = JObj [(''hasOwnProperty'', JNum 1)]"

text \<open>A generator that returns one snippet for every target, with the target as its title.\<close>

definition targetGenerator :: generator where
  "targetGenerator = (\<lambda>schema path method ts. Inr (map (\<lambda>t. \<lparr>title = t, content = ''curl ...''\<rparr>) ts))"

section \<open>Facts about keys, and the loop over the snippets\<close>

lemma arrayIndex_names [simp]:
  "arrayIndex ''x-code-samples'' = None" "arrayIndex ''paths'' = None"
  by (simp_all add: arrayIndex_def isDigit_def)

lemma lookup_update [simp]:
  "lookup (AList.update k x kvs) k' = (if k' = k then x else lookup kvs k')"
  by (simp add: lookup_def update_conv')

lemma lookup_map_entry [simp]:
  "lookup (AList.map_entry k (\<lambda>_. x) kvs) k' =
     (if k' = k \<and> map_of kvs k \<noteq> None then x else lookup kvs k')"
  by (cases "map_of kvs k") (auto simp add: lookup_def map_of_map_entry)

lemma lookup_defined: "lookup kvs k \<noteq> JUndefined \<Longrightarrow> map_of kvs k \<noteq> None"
  by (cases "map_of kvs k") (auto simp add: lookup_def)

lemma get_put_samples:
  assumes "js_get operation ''x-code-samples'' = Inr v" and "v \<noteq> JUndefined"
  shows "js_get (js_put operation ''x-code-samples'' x) ''x-code-samples'' = Inr x"
  using assms by (cases operation) (auto dest: lookup_defined)

lemma addSnippets_skip:
  assumes "js_get operation ''x-code-samples'' = Inr samples"
    and "js_get_index samples idx = Inr entry" and "js_truthy entry"
  shows "addSnippets g path idx (snippet # rest) (operation, console) =
         addSnippets g path (Suc idx) rest
           (operation,
            logMessage (''Field '' @ quoted (title snippet) @ '' already exists in ''
                        @ quoted path @ '' path, skipping.'') 2 Warning
              (messageIfVerbose g
                 (''Checking existance of '' @ quoted (title snippet) @ '' field...'') 1 Progress console))"
  using assms by (simp add: Let_def)

lemma addSnippets_write:
  assumes "js_get operation ''x-code-samples'' = Inr samples"
    and "js_get_index samples idx = Inr entry" and "\<not> js_truthy entry"
    and "js_set_index samples idx (sample snippet) = Inr samples'"
  shows "addSnippets g path idx (snippet # rest) (operation, console) =
         addSnippets g path (Suc idx) rest
           (js_put operation ''x-code-samples'' samples',
            messageIfVerbose g (''Added '' @ quoted (title snippet) @ '' field.'') 2 Complete
              (messageIfVerbose g
                 (''Checking existance of '' @ quoted (title snippet) @ '' field...'') 1 Progress console))"
  using assms by (simp add: Let_def)


section \<open>Facts about the relations\<close>

lemma keeps_refl [simp]: "keeps x x"
  by (simp add: keeps_def)

lemma keeps_trans:
  assumes "keeps x y" and "keeps y z"
  shows "keeps x z"
  unfolding keeps_def
proof (intro conjI allI impI)
  assume "js_truthy x" then show "js_truthy z" using assms by (simp add: keeps_def)
next
  fix i e assume "js_get_index x i = Inr e \<and> js_truthy e"
  then have "js_get_index y i = Inr e \<and> js_truthy e" using assms(1) by (simp add: keeps_def)
  then show "js_get_index z i = Inr e" using assms(2) by (simp add: keeps_def)
next
  fix xs ps assume "x = JArr xs ps"
  then obtain xs' where y: "y = JArr xs' ps" "length xs \<le> length xs'"
    using assms(1) unfolding keeps_def by blast
  then obtain xs'' where "z = JArr xs'' ps" "length xs' \<le> length xs''"
    using assms(2) unfolding keeps_def by blast
  then show "\<exists>xs'. z = JArr xs' ps \<and> length xs \<le> length xs'" using y by auto
qed

lemma opKeeps_refl [simp]: "opKeeps a a"
  by (simp add: opKeeps_def)

lemma opKeeps_trans:
  assumes "opKeeps a b" and "opKeeps b c"
  shows "opKeeps a c"
  unfolding opKeeps_def
proof (intro conjI allI impI)
  show "stripOperation a = stripOperation c" using assms by (simp add: opKeeps_def)
next
  fix x assume x: "js_get a ''x-code-samples'' = Inr x \<and> js_truthy x"
  then obtain y where y: "js_get b ''x-code-samples'' = Inr y" "keeps x y"
    using assms(1) unfolding opKeeps_def by blast
  then have "js_truthy y" using x by (simp add: keeps_def)
  then obtain z where z: "js_get c ''x-code-samples'' = Inr z" "keeps y z"
    using assms(2) y unfolding opKeeps_def by blast
  then show "\<exists>x'. js_get c ''x-code-samples'' = Inr x' \<and> keeps x x'"
    using y keeps_trans by blast
qed

lemma entriesRel_refl: "(\<And>k v. Q k v v) \<Longrightarrow> entriesRel Q kvs kvs"
  by (simp add: entriesRel_def list_all2_refl)

lemma entriesRel_trans:
  assumes "\<And>k a b c. Q k a b \<Longrightarrow> Q k b c \<Longrightarrow> Q k a c"
    and "entriesRel Q xs ys" and "entriesRel Q ys zs"
  shows "entriesRel Q xs zs"
proof -
  let ?P = "\<lambda>a b. fst a = fst b \<and> Q (fst a) (snd a) (snd b)"
  have "\<And>a b c. ?P a b \<Longrightarrow> ?P b c \<Longrightarrow> ?P a c" using assms(1) by metis
  then have "list_all2 ?P xs zs"
    using list_all2_trans [of ?P ?P ?P xs ys zs] assms(2,3) unfolding entriesRel_def by blast
  then show ?thesis by (simp add: entriesRel_def)
qed

lemma valueRel_JObj: "valueRel E Q (JObj kvs) c = (\<exists>kvs'. c = JObj kvs' \<and> entriesRel Q kvs kvs')"
  by (cases c) simp_all

lemma valueRel_JArr:
  "valueRel E Q (JArr xs ps) c = (\<exists>xs' ps'. c = JArr xs' ps' \<and> list_all2 E xs xs' \<and> entriesRel Q ps ps')"
  by (cases c) simp_all

lemma valueRel_other: "\<not> isContainer c \<Longrightarrow> valueRel E Q c c' = (c' = c)"
  by (cases c) auto

lemma valueRel_refl: "(\<And>v. E v v) \<Longrightarrow> (\<And>k v. Q k v v) \<Longrightarrow> valueRel E Q c c"
  by (cases c) (simp_all add: entriesRel_refl list_all2_refl)

lemma valueRel_trans:
  assumes "\<And>a b c. E a b \<Longrightarrow> E b c \<Longrightarrow> E a c"
    and "\<And>k a b c. Q k a b \<Longrightarrow> Q k b c \<Longrightarrow> Q k a c"
    and "valueRel E Q x y" and "valueRel E Q y z"
  shows "valueRel E Q x z"
proof (cases x)
  case (JObj kvs)
  then obtain kvs' where y: "y = JObj kvs'" "entriesRel Q kvs kvs'"
    using assms(3) by (auto simp add: valueRel_JObj)
  then obtain kvs'' where z: "z = JObj kvs''" "entriesRel Q kvs' kvs''"
    using assms(4) by (auto simp add: valueRel_JObj)
  show ?thesis using JObj y z entriesRel_trans [of Q, OF assms(2)] by auto
next
  case (JArr xs ps)
  then obtain xs' ps' where y: "y = JArr xs' ps'" "list_all2 E xs xs'" "entriesRel Q ps ps'"
    using assms(3) by (auto simp add: valueRel_JArr)
  then obtain xs'' ps'' where z: "z = JArr xs'' ps''" "list_all2 E xs' xs''" "entriesRel Q ps' ps''"
    using assms(4) by (auto simp add: valueRel_JArr)
  have "list_all2 E xs xs''"
    using list_all2_trans [of E E E xs xs' xs''] assms(1) y(2) z(2) by blast
  then show ?thesis using JArr y z entriesRel_trans [of Q, OF assms(2)] by auto
qed (use assms(3,4) in auto)

lemma entriesRel_keys: "entriesRel Q kvs kvs' \<Longrightarrow> map fst kvs' = map fst kvs"
  unfolding entriesRel_def by (induction rule: list_all2_induct) auto

lemma entriesRel_map_of:
  "entriesRel Q kvs kvs' \<Longrightarrow>
   (map_of kvs k = None \<and> map_of kvs' k = None) \<or>
   (\<exists>v v'. map_of kvs k = Some v \<and> map_of kvs' k = Some v' \<and> Q k v v')"
  unfolding entriesRel_def
proof (induction rule: list_all2_induct)
  case Nil
  then show ?case by simp
next
  case (Cons a as b bs)
  then show ?case by (cases a; cases b) auto
qed

lemma entriesRel_lookup:
  assumes "entriesRel Q kvs kvs'"
  shows "lookup kvs' k = lookup kvs k \<or> Q k (lookup kvs k) (lookup kvs' k)"
  using entriesRel_map_of [OF assms, of k] by (auto simp add: lookup_def)

lemma valueRel_get:
  assumes "valueRel E Q c c'" and "js_get c k = Inr v"
  shows "\<exists>v'. js_get c' k = Inr v' \<and> (v' = v \<or> E v v' \<or> Q k v v')"
proof (cases c)
  case (JObj kvs)
  then obtain kvs' where c': "c' = JObj kvs'" "entriesRel Q kvs kvs'"
    using assms(1) by (auto simp add: valueRel_JObj)
  show ?thesis using JObj c' assms(2) entriesRel_lookup [OF c'(2), of k] by auto
next
  case (JArr xs ps)
  then obtain xs' ps' where c': "c' = JArr xs' ps'" "list_all2 E xs xs'" "entriesRel Q ps ps'"
    using assms(1) by (auto simp add: valueRel_JArr)
  have len: "length xs' = length xs" using c'(2) by (simp add: list_all2_lengthD)
  show ?thesis
  proof (cases "arrayIndex k")
    case None
    then show ?thesis
      using JArr c' assms(2) len entriesRel_lookup [OF c'(3), of k] by auto
  next
    case (Some i)
    then show ?thesis
      using JArr c' assms(2) len list_all2_nthD [OF c'(2), of i] by auto
  qed
qed (use assms in auto)

lemma entriesRel_map_entry:
  assumes "\<And>k v. Q k v v" and "Q k (lookup kvs k) x"
  shows "entriesRel Q kvs (AList.map_entry k (\<lambda>_. x) kvs)"
  using assms(2) unfolding entriesRel_def
proof (induction kvs)
  case Nil
  then show ?case by simp
next
  case (Cons a kvs)
  show ?case
  proof (cases "fst a = k")
    case True
    then show ?thesis using Cons.prems assms(1) by (cases a) (auto simp add: lookup_def list_all2_refl)
  next
    case False
    then have "Q k (lookup kvs k) x" using Cons.prems by (cases a) (auto simp add: lookup_def)
    then show ?thesis using False Cons.IH assms(1) by auto
  qed
qed

lemma list_all2_update_refl:
  assumes "\<And>v. E v v" and "i < length xs" and "E (xs ! i) x"
  shows "list_all2 E xs (xs[i := x])"
  using assms by (auto simp add: list_all2_conv_all_nth nth_list_update)

lemma valueRel_put:
  assumes "\<And>v. E v v" and "\<And>k v. Q k v v" and "js_get c k = Inr v" and "E v x" and "Q k v x"
  shows "valueRel E Q c (js_put c k x)"
proof (cases c)
  case (JObj kvs)
  then show ?thesis using assms entriesRel_map_entry [of Q k kvs x] by auto
next
  case (JArr xs ps)
  show ?thesis
  proof (cases "arrayIndex k")
    case None
    then show ?thesis
      using JArr assms entriesRel_map_entry [of Q k ps x]
      by (auto simp add: list_all2_refl entriesRel_refl)
  next
    case (Some i)
    then show ?thesis
      using JArr assms list_all2_update_refl [of E i xs x]
      by (auto simp add: list_all2_refl entriesRel_refl)
  qed
qed (auto)

lemma valueRel_put_named:
  assumes "\<And>v. E v v" and "\<And>k v. Q k v v" and "js_get c k = Inr v"
    and "arrayIndex k = None" and "Q k v x"
  shows "valueRel E Q c (js_put c k x)"
proof (cases c)
  case (JObj kvs)
  then show ?thesis using assms entriesRel_map_entry [of Q k kvs x] by auto
next
  case (JArr xs ps)
  then show ?thesis
    using assms entriesRel_map_entry [of Q k ps x]
    by (auto simp add: list_all2_refl entriesRel_refl)
qed (auto)

lemma valueRel_get_error:
  assumes "valueRel E Q c c'" and "js_get c k = Inl e"
  shows "js_get c' k = Inl e"
  using assms by (cases c) (auto split: option.splits)

lemma valueRel_for_in:
  assumes "valueRel E Q c c'"
  shows "js_for_in c' = js_for_in c"
proof (cases c)
  case (JObj kvs)
  then show ?thesis using assms by (auto simp add: valueRel_JObj dest: entriesRel_keys)
next
  case (JArr xs ps)
  then obtain xs' ps' where c': "c' = JArr xs' ps'" "list_all2 E xs xs'" "entriesRel Q ps ps'"
    using assms(1) by (auto simp add: valueRel_JArr)
  show ?thesis
    using JArr c'(1) entriesRel_keys [OF c'(3)] list_all2_lengthD [OF c'(2)] by simp
qed (use assms in auto)

lemma map_of_keys: "map fst kvs' = map fst kvs \<Longrightarrow> (map_of kvs' k = None) = (map_of kvs k = None)"
  by (metis map_of_eq_None_iff set_map)

lemma valueRel_hasOwnProperty:
  assumes "valueRel E Q c c'"
  shows "js_hasOwnProperty c' k = js_hasOwnProperty c k"
proof (cases c)
  case (JObj kvs)
  then obtain kvs' where c': "c' = JObj kvs'" "entriesRel Q kvs kvs'"
    using assms(1) by (auto simp add: valueRel_JObj)
  show ?thesis using JObj c' map_of_keys [OF entriesRel_keys [OF c'(2)]] by simp
next
  case (JArr xs ps)
  then obtain xs' ps' where c': "c' = JArr xs' ps'" "list_all2 E xs xs'" "entriesRel Q ps ps'"
    using assms(1) by (auto simp add: valueRel_JArr)
  have "length xs' = length xs" using list_all2_lengthD [OF c'(2)] by simp
  then show ?thesis
    using JArr c'(1) map_of_keys [OF entriesRel_keys [OF c'(3)]]
    by (simp split: option.splits)
qed (use assms in auto)

lemma entriesRel_map:
  assumes "entriesRel Q kvs kvs'" and "\<And>k a b. Q k a b \<Longrightarrow> f (k, a) = f (k, b)"
  shows "map f kvs = map f kvs'"
  using assms(1) unfolding entriesRel_def
proof (induction rule: list_all2_induct)
  case Nil
  then show ?case by simp
next
  case (Cons a as b bs)
  then show ?case using assms(2) [of "fst a" "snd a" "snd b"] by (cases a; cases b) auto
qed

lemma list_all2_map_eq:
  assumes "list_all2 E xs xs'" and "\<And>a b. E a b \<Longrightarrow> f a = f b"
  shows "map f xs = map f xs'"
  using assms(1) by (induction rule: list_all2_induct) (auto intro: assms(2))

lemma mapChildren_rel:
  assumes "childRel R c c'" and "\<And>a b. R a b \<Longrightarrow> f a = f b"
  shows "mapChildren f c = mapChildren f c'"
proof (cases c)
  case (JObj kvs)
  then obtain kvs' where c': "c' = JObj kvs'" "entriesRel (\<lambda>k. R) kvs kvs'"
    using assms(1) by (auto simp add: childRel_def valueRel_JObj)
  show ?thesis using JObj c'(1) entriesRel_map [OF c'(2), of "\<lambda>kv. (fst kv, f (snd kv))"] assms(2)
    by auto
next
  case (JArr xs ps)
  then obtain xs' ps' where c': "c' = JArr xs' ps'" "list_all2 R xs xs'" "entriesRel (\<lambda>k. R) ps ps'"
    using assms(1) by (auto simp add: childRel_def valueRel_JArr)
  show ?thesis
    using JArr c'(1) entriesRel_map [OF c'(3), of "\<lambda>kv. (fst kv, f (snd kv))"] assms(2)
      list_all2_map_eq [OF c'(2), of f]
    by auto
qed (use assms(1) in \<open>auto simp add: childRel_def\<close>)

section \<open>Facts about the enrichment of one operation\<close>

lemma delete_map_entry: "AList.delete k (AList.map_entry k f kvs) = AList.delete k kvs"
  by (induction kvs) (auto simp add: AList.delete_eq)

lemma strip_put [simp]:
  "stripOperation (js_put operation ''x-code-samples'' y) = stripOperation operation"
  by (cases operation) (simp_all add: delete_map_entry)

lemma strip_set:
  "js_set operation ''x-code-samples'' y = Inr operation' \<Longrightarrow>
   stripOperation operation' = stripOperation operation"
  by (cases operation) (auto simp add: delete_update_same)

lemma get_set_samples:
  "js_set operation ''x-code-samples'' y = Inr operation' \<Longrightarrow>
   js_get operation' ''x-code-samples'' = Inr y"
  by (cases operation) auto

lemma get_index_set_index:
  "js_set_index x idx v = Inr x' \<Longrightarrow> js_get_index x' idx = Inr v"
  by (cases x) (auto simp add: nth_append)

lemma keeps_set_index:
  assumes "js_get_index x idx = Inr entry" and "\<not> js_truthy entry"
    and "js_set_index x idx v = Inr x'"
  shows "keeps x x'"
proof (cases x)
  case (JObj kvs)
  then show ?thesis using assms by (auto simp add: keeps_def)
next
  case (JArr xs ps)
  then show ?thesis using assms
    by (auto simp add: keeps_def nth_list_update nth_append split: if_splits)
qed (use assms in auto)

lemma initCodeSamples_cases:
  obtains (stop) e where "initCodeSamples g (operation, console) = ((operation, console), Throw e)"
  | (stop') e console1 field where "js_get operation ''x-code-samples'' = Inr field"
      "initCodeSamples g (operation, console) = ((operation, console1), Throw e)"
  | (keep) field console1 where "js_get operation ''x-code-samples'' = Inr field" "js_truthy field"
      "initCodeSamples g (operation, console) = ((operation, console1), Normal)"
  | (fresh) field operation' console1 where "js_get operation ''x-code-samples'' = Inr field"
      "\<not> js_truthy field" "js_set operation ''x-code-samples'' (JArr [] []) = Inr operation'"
      "initCodeSamples g (operation, console) = ((operation', console1), Normal)"
proof (cases "js_get operation ''x-code-samples''")
  case (Inl e)
  then show ?thesis using stop by (simp add: initCodeSamples_def)
next
  case (Inr field)
  note field = this
  show ?thesis
  proof (cases "js_truthy field")
    case True
    then show ?thesis using keep [OF field True] field by (simp add: initCodeSamples_def)
  next
    case False
    show ?thesis
    proof (cases "js_set operation ''x-code-samples'' (JArr [] [])")
      case (Inl e)
      then show ?thesis using stop' [OF field] field False by (simp add: initCodeSamples_def Let_def)
    next
      case (Inr operation')
      then show ?thesis
        using fresh [OF field False Inr] field False by (simp add: initCodeSamples_def Let_def)
    qed
  qed
qed

lemma addSnippets_cases:
  obtains (stop) e console1 where
      "addSnippets g path idx (snippet # rest) (operation, console) = ((operation, console1), Throw e)"
  | (skip) samples entry console1 where "js_get operation ''x-code-samples'' = Inr samples"
      "js_get_index samples idx = Inr entry" "js_truthy entry"
      "addSnippets g path idx (snippet # rest) (operation, console) =
       addSnippets g path (Suc idx) rest (operation, console1)"
  | (store) samples entry samples' console1 where "js_get operation ''x-code-samples'' = Inr samples"
      "js_get_index samples idx = Inr entry" "\<not> js_truthy entry"
      "js_set_index samples idx (sample snippet) = Inr samples'"
      "addSnippets g path idx (snippet # rest) (operation, console) =
       addSnippets g path (Suc idx) rest (js_put operation ''x-code-samples'' samples', console1)"
proof (cases "js_get operation ''x-code-samples''")
  case (Inl e)
  then show ?thesis using stop by (simp add: Let_def)
next
  case (Inr samples)
  note samples = this
  show ?thesis
  proof (cases "js_get_index samples idx")
    case (Inl e)
    then show ?thesis using stop samples by (simp add: Let_def)
  next
    case (Inr entry)
    note entry = this
    show ?thesis
    proof (cases "js_truthy entry")
      case True
      then show ?thesis using skip [OF samples entry True] addSnippets_skip [OF samples entry True] by blast
    next
      case False
      show ?thesis
      proof (cases "js_set_index samples idx (sample snippet)")
        case (Inl e)
        then show ?thesis using stop samples entry False by (simp add: Let_def)
      next
        case (Inr samples')
        then show ?thesis
          using store [OF samples entry False Inr] addSnippets_write [OF samples entry False Inr] by blast
      qed
    qed
  qed
qed

lemma opKeeps_write:
  assumes "js_get operation ''x-code-samples'' = Inr samples"
    and "js_get_index samples idx = Inr entry" and "\<not> js_truthy entry"
    and "js_set_index samples idx v = Inr samples'"
  shows "opKeeps operation (js_put operation ''x-code-samples'' samples')"
  unfolding opKeeps_def
proof (intro conjI allI impI)
  show "stripOperation operation = stripOperation (js_put operation ''x-code-samples'' samples')"
    by simp
next
  fix x assume x: "js_get operation ''x-code-samples'' = Inr x \<and> js_truthy x"
  then have "x = samples" "x \<noteq> JUndefined" using assms(1) by auto
  then show "\<exists>x'. js_get (js_put operation ''x-code-samples'' samples') ''x-code-samples'' = Inr x'
                \<and> keeps x x'"
    using get_put_samples [OF assms(1)] keeps_set_index [OF assms(2,3,4)] by auto
qed

lemma addSnippets_opKeeps:
  "addSnippets g path idx snippets (operation, console) = ((operation', console'), c) \<Longrightarrow>
   opKeeps operation operation'"
proof (induction snippets arbitrary: idx operation console)
  case Nil
  then show ?case by simp
next
  case (Cons s rest)
  show ?case
  proof (cases rule: addSnippets_cases [of g path idx s rest operation console])
    case (stop e console1)
    then show ?thesis using Cons.prems by simp
  next
    case (skip samples entry console1)
    then show ?thesis using Cons.prems Cons.IH by simp
  next
    case (store samples entry samples' console1)
    then have "opKeeps (js_put operation ''x-code-samples'' samples') operation'"
      using Cons.prems Cons.IH by simp
    then show ?thesis using opKeeps_write [OF store(1,2,3,4)] opKeeps_trans by blast
  qed
qed

lemma opKeeps_fresh:
  assumes "js_get operation ''x-code-samples'' = Inr field" and "\<not> js_truthy field"
    and "js_set operation ''x-code-samples'' y = Inr operation'"
  shows "opKeeps operation operation'"
  using assms strip_set [OF assms(3)] by (auto simp add: opKeeps_def)

lemma enrichOperation_opKeeps:
  assumes "enrichOperation g path snippets (operation, console) = ((operation', console'), c)"
  shows "opKeeps operation operation'"
proof (cases rule: initCodeSamples_cases [of g operation console])
  case (stop e)
  then show ?thesis using assms by (simp add: enrichOperation_def)
next
  case (stop' e console1 field)
  then show ?thesis using assms by (simp add: enrichOperation_def)
next
  case (keep field console1)
  then show ?thesis using assms addSnippets_opKeeps by (simp add: enrichOperation_def)
next
  case (fresh field operation1 console1)
  then have "opKeeps operation1 operation'"
    using assms addSnippets_opKeeps by (simp add: enrichOperation_def)
  then show ?thesis using opKeeps_fresh [OF fresh(1,2,3)] opKeeps_trans by blast
qed

text \<open>
  The operation a round leaves depends on the verbosity only through the console, so
  every round of any run is an \<open>operationStep\<close>.
\<close>

lemma initCodeSamples_verbosity:
  "isVerbose g = isVerbose g' \<Longrightarrow> initCodeSamples g st = initCodeSamples g' st"
  by (cases st) (simp add: initCodeSamples_def messageIfVerbose_def Let_def split: sum.splits)

lemma addSnippets_verbosity:
  "isVerbose g = isVerbose g' \<Longrightarrow>
   addSnippets g path idx snippets st = addSnippets g' path idx snippets st"
proof (induction snippets arbitrary: idx st)
  case Nil
  then show ?case by (cases st) simp
next
  case (Cons s rest)
  then show ?case
    by (cases st) (simp add: messageIfVerbose_def Let_def split: sum.splits)
qed

lemma enrichOperation_verbosity:
  assumes "isVerbose g = isVerbose g'"
  shows "enrichOperation g path snippets st = enrichOperation g' path snippets st"
  using initCodeSamples_verbosity [OF assms, of st] addSnippets_verbosity [OF assms, of path 0 snippets]
  by (simp add: enrichOperation_def split: prod.splits completion.splits)

lemma operationStep_run:
  assumes "enrichOperation g path snippets (a, console) = ((b, console'), c)"
  shows "operationStep a b"
proof -
  have "enrichOperation \<lparr>isVerbose = isVerbose g, targets = []\<rparr> path snippets (a, console)
          = ((b, console'), c)"
    using enrichOperation_verbosity [of "\<lparr>isVerbose = isVerbose g, targets = []\<rparr>" g path snippets
        "(a, console)"] assms by simp
  then show ?thesis unfolding operationStep_def by blast
qed

lemma opStep_refl [simp]: "opStep a a"
  by (simp add: opStep_def)

lemma opStep_trans: "opStep a b \<Longrightarrow> opStep b c \<Longrightarrow> opStep a c"
  unfolding opStep_def by (rule rtranclp_trans)

lemma enrichOperation_opStep:
  assumes "enrichOperation g path snippets (operation, console) = ((operation', console'), c)"
  shows "opStep operation operation'"
  unfolding opStep_def using operationStep_run [OF assms] by (rule r_into_rtranclp)

lemma opStep_invariant:
  assumes "\<And>x y. I x \<Longrightarrow> operationStep x y \<Longrightarrow> I y" and "opStep a b" and "I a"
  shows "I b"
  using assms(2,3) unfolding opStep_def
  by (induction rule: rtranclp_induct) (auto intro: assms(1))

lemma operationStep_keeps: "operationStep a b \<Longrightarrow> opKeeps a b"
  unfolding operationStep_def using enrichOperation_opKeeps by blast

lemma opStep_keeps: "opStep a b \<Longrightarrow> opKeeps a b"
  unfolding opStep_def
  by (induction rule: rtranclp_induct) (auto intro: opKeeps_trans operationStep_keeps)

section \<open>Facts about the enrichment of a document\<close>

lemma childRel_refl: "(\<And>v. R v v) \<Longrightarrow> childRel R c c"
  by (simp add: childRel_def valueRel_refl)

lemma childRel_trans:
  assumes "\<And>a b c. R a b \<Longrightarrow> R b c \<Longrightarrow> R a c" and "childRel R x y" and "childRel R y z"
  shows "childRel R x z"
  using valueRel_trans [of R "\<lambda>k. R" x y z] assms unfolding childRel_def by blast

lemma itemRel_refl [simp]: "childRel opStep c c"
  by (simp add: childRel_refl)

lemma itemRel_trans: "childRel opStep x y \<Longrightarrow> childRel opStep y z \<Longrightarrow> childRel opStep x z"
  using childRel_trans [of opStep x y z] opStep_trans by blast

lemma pathMapRel_refl [simp]: "childRel (childRel opStep) c c"
  by (simp add: childRel_refl)

lemma pathMapRel_trans:
  "childRel (childRel opStep) x y \<Longrightarrow> childRel (childRel opStep) y z \<Longrightarrow> childRel (childRel opStep) x z"
  using childRel_trans [of "childRel opStep" x y z] itemRel_trans by blast

lemma docRel_refl [simp]: "docRel d d"
  by (simp add: docRel_def pathsRel_def valueRel_refl)

lemma docRel_trans:
  assumes "docRel x y" and "docRel y z"
  shows "docRel x z"
proof -
  let ?Q = "\<lambda>k. if k = ''paths'' then childRel (childRel opStep) else (=)"
  have "\<And>k a b c. ?Q k a b \<Longrightarrow> ?Q k b c \<Longrightarrow> ?Q k a c"
    using pathMapRel_trans by (auto split: if_splits)
  then show ?thesis
    using valueRel_trans [of "(=)" ?Q x y z] assms unfolding docRel_def pathsRel_def by blast
qed

lemma withoutSamples_rel:
  assumes "docRel d d'"
  shows "withoutSamples d' = withoutSamples d"
proof -
  let ?f = "mapChildren (mapChildren stripOperation)"
  let ?Q = "\<lambda>k. if k = ''paths'' then childRel (childRel opStep) else (=)"
  have 1: "\<And>a b. opStep a b \<Longrightarrow> stripOperation a = stripOperation b"
    by (drule opStep_keeps) (simp add: opKeeps_def)
  have 2: "\<And>a b. childRel opStep a b \<Longrightarrow> mapChildren stripOperation a = mapChildren stripOperation b"
    using mapChildren_rel 1 by blast
  have 3: "\<And>a b. childRel (childRel opStep) a b \<Longrightarrow> ?f a = ?f b"
    using mapChildren_rel 2 by blast
  have 4: "\<And>k a b. ?Q k a b \<Longrightarrow> underPaths ?f (k, a) = underPaths ?f (k, b)"
    using 3 by (auto simp add: underPaths_def split: if_splits)
  have rel: "valueRel (=) ?Q d d'" using assms by (simp add: docRel_def pathsRel_def)
  show ?thesis
  proof (cases d)
    case (JObj kvs)
    then obtain kvs' where c': "d' = JObj kvs'" "entriesRel ?Q kvs kvs'"
      using rel by (auto simp add: valueRel_JObj)
    show ?thesis using JObj c'(1) entriesRel_map [OF c'(2), of "underPaths ?f"] 4 by auto
  next
    case (JArr xs ps)
    then obtain xs' ps' where c': "d' = JArr xs' ps'" "list_all2 (=) xs xs'" "entriesRel ?Q ps ps'"
      using rel by (auto simp add: valueRel_JArr)
    have "xs' = xs" using c'(2) unfolding list_all2_eq [symmetric] by simp
    then show ?thesis
      using JArr c'(1) entriesRel_map [OF c'(3), of "underPaths ?f"] 4 by auto
  qed (use rel in auto)
qed

lemma putOperation_rel:
  assumes "operationAt d p m = Inr operation" and "opStep operation operation'"
  shows "docRel d (putOperation d p m operation')"
proof -
  obtain paths where paths: "js_get d ''paths'' = Inr paths"
    using assms(1) by (cases "js_get d ''paths''") (auto simp add: operationAt_def)
  obtain item where item: "js_get paths p = Inr item"
    using assms(1) paths by (cases "js_get paths p") (auto simp add: operationAt_def)
  have op: "js_get item m = Inr operation"
    using assms(1) paths item by (simp add: operationAt_def)
  have 1: "childRel opStep item (js_put item m operation')"
    unfolding childRel_def using valueRel_put [of opStep "\<lambda>k. opStep" item m operation operation'] op assms(2)
    by simp
  have 2: "childRel (childRel opStep) paths (js_put paths p (js_put item m operation'))"
    using valueRel_put [of "childRel opStep" "\<lambda>k. childRel opStep" paths p item "js_put item m operation'"]
      item 1 by (simp add: childRel_def [of "childRel opStep"])
  let ?Q = "\<lambda>k. if k = ''paths'' then childRel (childRel opStep) else (=)"
  have "valueRel (=) ?Q d (js_put d ''paths'' (js_put paths p (js_put item m operation')))"
    using valueRel_put_named [of "(=)" ?Q d "''paths''" paths] paths 2 by simp
  then show ?thesis using paths item by (simp add: docRel_def pathsRel_def putOperation_def)
qed

lemma enrichEndpoint_cases:
  obtains (stop) e console1 where
      "enrichEndpoint g gen p m (d, console) = ((d, console1), Throw e)"
  | (run) snippets operation operation' console1 console2 c where
      "gen d p m (targets g) = Inr snippets" "operationAt d p m = Inr operation"
      "enrichOperation g p snippets (operation, console1) = ((operation', console2), c)"
      "enrichEndpoint g gen p m (d, console) = ((putOperation d p m operation', console2), c)"
proof (cases "gen d p m (targets g)")
  case (Inl e)
  then show ?thesis using stop by (simp add: enrichEndpoint_def)
next
  case (Inr snippets)
  note snippets = this
  show ?thesis
  proof (cases "operationAt d p m")
    case (Inl e)
    then show ?thesis using stop snippets by (simp add: enrichEndpoint_def Let_def)
  next
    case (Inr operation)
    let ?console1 = "messageIfVerbose g
                (''Checking existance of '' @ quoted ''x-code-samples'' @ '' field in '' @ p
                 @ '' path...'') 1 Progress console"
    obtain operation' console2 c where
      e: "enrichOperation g p snippets (operation, ?console1) = ((operation', console2), c)"
      by (metis prod.exhaust)
    then have "enrichEndpoint g gen p m (d, console) = ((putOperation d p m operation', console2), c)"
      using snippets Inr by (simp add: enrichEndpoint_def Let_def)
    then show ?thesis using run [OF snippets Inr e] by blast
  qed
qed

lemma enrichEndpoint_rel:
  assumes "enrichEndpoint g gen p m (d, console) = ((d', console'), c)"
  shows "docRel d d'"
proof (cases rule: enrichEndpoint_cases [of g gen p m d console])
  case (stop e console1)
  then show ?thesis using assms by simp
next
  case (run snippets operation operation' console1 console2 c')
  then show ?thesis
    using assms putOperation_rel [OF run(2) enrichOperation_opStep [OF run(3)]] by simp
qed

lemma enrichMethods_rel:
  "enrichMethods g gen p ms (d, console) = ((d', console'), c) \<Longrightarrow> docRel d d'"
proof (induction ms arbitrary: d console)
  case Nil
  then show ?case by simp
next
  case (Cons m ms)
  obtain d1 console1 c1 where e: "enrichEndpoint g gen p m (d, console) = ((d1, console1), c1)"
    by (metis prod.exhaust)
  have r: "docRel d d1" using enrichEndpoint_rel [OF e] .
  show ?case
  proof (cases c1)
    case Normal
    then have "enrichMethods g gen p ms (d1, console1) = ((d', console'), c)"
      using Cons.prems e by simp
    then show ?thesis using Cons.IH r docRel_trans by blast
  next
    case (Throw x)
    then show ?thesis using Cons.prems e r by simp
  qed
qed

lemma enrichPaths_rel:
  "enrichPaths g gen ps (d, console) = ((d', console'), c) \<Longrightarrow> docRel d d'"
proof (induction ps arbitrary: d console)
  case Nil
  then show ?case by simp
next
  case (Cons p ps)
  show ?case
  proof (cases "methodKeys d p")
    case (Inl e)
    then show ?thesis using Cons.prems by simp
  next
    case (Inr ms)
    obtain d1 console1 c1 where e: "enrichMethods g gen p ms (d, console) = ((d1, console1), c1)"
      by (metis prod.exhaust)
    have r: "docRel d d1" using enrichMethods_rel [OF e] .
    show ?thesis
    proof (cases c1)
      case Normal
      then have "enrichPaths g gen ps (d1, console1) = ((d', console'), c)"
        using Cons.prems e Inr by simp
      then show ?thesis using Cons.IH r docRel_trans by blast
    next
      case (Throw x)
      then show ?thesis using Cons.prems e r Inr by simp
    qed
  qed
qed

lemma enrichSchema_cases:
  obtains (typeError) e where "js_hasOwnProperty d ''paths'' = Inl e"
      "enrichSchema g gen (d, console) = ((d, console), Throw e)"
  | (missing) "js_hasOwnProperty d ''paths'' = Inr False"
      "enrichSchema g gen (d, console) = ((d, console), Throw (PropertyError ''paths''))"
  | (nopaths) e where "js_hasOwnProperty d ''paths'' = Inr True"
      "enrichSchema g gen (d, console) = ((d, console), Throw e)"
  | (loop) paths where "js_hasOwnProperty d ''paths'' = Inr True" "js_get d ''paths'' = Inr paths"
      "enrichSchema g gen (d, console) = enrichPaths g gen (js_for_in paths) (d, console)"
proof (cases "js_hasOwnProperty d ''paths''")
  case (Inl e)
  then show ?thesis using typeError by (simp add: enrichSchema_def)
next
  case (Inr b)
  show ?thesis
  proof (cases b)
    case False
    then show ?thesis using missing Inr by (simp add: enrichSchema_def)
  next
    case True
    then show ?thesis using nopaths loop Inr
      by (cases "js_get d ''paths''") (simp_all add: enrichSchema_def)
  qed
qed

lemma enrichSchema_rel:
  assumes "enrichSchema g gen (d, console) = ((d', console'), c)"
  shows "docRel d d'"
proof (cases rule: enrichSchema_cases [of d g gen console])
  case (loop paths)
  then have "enrichPaths g gen (js_for_in paths) (d, console) = ((d', console'), c)"
    using assms by simp
  then show ?thesis by (rule enrichPaths_rel)
qed (use assms in auto)

lemma docRel_paths:
  assumes "docRel d d'" and "js_get d ''paths'' = Inr paths"
  shows "\<exists>paths'. js_get d' ''paths'' = Inr paths' \<and> childRel (childRel opStep) paths paths'"
  using valueRel_get [of "(=)" "\<lambda>k. if k = ''paths'' then childRel (childRel opStep) else (=)" d d'
      "''paths''" paths] assms
  by (auto simp add: docRel_def pathsRel_def)

lemma pathMapRel_item:
  assumes "childRel (childRel opStep) paths paths'" and "js_get paths p = Inr item"
  shows "\<exists>item'. js_get paths' p = Inr item' \<and> childRel opStep item item'"
  using valueRel_get [of "childRel opStep" "\<lambda>k. childRel opStep" paths paths' p item] assms
  by (auto simp add: childRel_def [of "childRel opStep"])

lemma itemRel_operation:
  assumes "childRel opStep item item'" and "js_get item m = Inr operation"
  shows "\<exists>operation'. js_get item' m = Inr operation' \<and> opStep operation operation'"
  using valueRel_get [of opStep "\<lambda>k. opStep" item item' m operation] assms
  by (auto simp add: childRel_def)

lemma docRel_operationAt:
  assumes "docRel d d'" and "operationAt d p m = Inr operation"
  shows "\<exists>operation'. operationAt d' p m = Inr operation' \<and> opStep operation operation'"
proof -
  obtain paths where paths: "js_get d ''paths'' = Inr paths"
    using assms(2) by (cases "js_get d ''paths''") (auto simp add: operationAt_def)
  obtain item where item: "js_get paths p = Inr item"
    using assms(2) paths by (cases "js_get paths p") (auto simp add: operationAt_def)
  have op: "js_get item m = Inr operation"
    using assms(2) paths item by (simp add: operationAt_def)
  obtain paths' where paths': "js_get d' ''paths'' = Inr paths'" "childRel (childRel opStep) paths paths'"
    using docRel_paths [OF assms(1) paths] by blast
  obtain item' where item': "js_get paths' p = Inr item'" "childRel opStep item item'"
    using pathMapRel_item [OF paths'(2) item] by blast
  obtain operation' where "js_get item' m = Inr operation'" "opStep operation operation'"
    using itemRel_operation [OF item'(2) op] by blast
  then show ?thesis using paths' item' by (auto simp add: operationAt_def)
qed

lemma kept_entries:
  assumes "operationAt schema p m = Inr operation"
    and "js_get operation ''x-code-samples'' = Inr (JArr xs ps)"
    and "enrichSchema g gen (schema, console) = ((schema', console'), c)"
  shows "\<exists>operation' xs'. operationAt schema' p m = Inr operation' \<and>
           js_get operation' ''x-code-samples'' = Inr (JArr xs' ps) \<and> length xs \<le> length xs' \<and>
           (\<forall>i<length xs. js_truthy (xs ! i) \<longrightarrow> xs' ! i = xs ! i)"
proof -
  obtain operation' where o: "operationAt schema' p m = Inr operation'" "opStep operation operation'"
    using docRel_operationAt [OF enrichSchema_rel [OF assms(3)] assms(1)] by blast
  have "opKeeps operation operation'" using opStep_keeps [OF o(2)] .
  then obtain x' where x: "js_get operation' ''x-code-samples'' = Inr x'" "keeps (JArr xs ps) x'"
    using assms(2) unfolding opKeeps_def by auto
  then obtain xs' where xs': "x' = JArr xs' ps" "length xs \<le> length xs'"
    unfolding keeps_def by blast
  have "\<forall>i<length xs. js_truthy (xs ! i) \<longrightarrow> xs' ! i = xs ! i"
  proof (intro allI impI)
    fix i assume i: "i < length xs" "js_truthy (xs ! i)"
    then have "js_get_index (JArr xs ps) i = Inr (xs ! i) \<and> js_truthy (xs ! i)" by simp
    then have "js_get_index x' i = Inr (xs ! i)" using x(2) unfolding keeps_def by blast
    then show "xs' ! i = xs ! i" using xs' i by simp
  qed
  then show ?thesis using o x xs' by auto
qed

lemma js_get_put_same:
  assumes "js_get c k = Inr v" and "isContainer v"
  shows "js_get (js_put c k x) k = Inr x"
proof (cases c)
  case (JObj kvs)
  then have "lookup kvs k \<noteq> JUndefined" using assms by auto
  then show ?thesis using JObj lookup_defined [of kvs k] by auto
next
  case (JArr xs ps)
  show ?thesis
  proof (cases "arrayIndex k")
    case None
    then have "k \<noteq> ''length''" "lookup ps k \<noteq> JUndefined" using JArr assms by (auto split: if_splits)
    then show ?thesis using JArr None lookup_defined [of ps k] by auto
  next
    case (Some i)
    then show ?thesis using JArr assms by (auto split: if_splits)
  qed
next
  case (JStr s)
  then show ?thesis using assms by (auto split: option.splits if_splits)
qed (use assms in auto)

lemma container_parent:
  assumes "js_get c k = Inr v" and "isContainer v"
  shows "isContainer c"
  using assms by (cases c) (auto split: option.splits if_splits)

lemma operationAt_putOperation:
  assumes "operationAt d p m = Inr operation" and "isContainer operation"
  shows "operationAt (putOperation d p m operation') p m = Inr operation'"
proof -
  obtain paths where paths: "js_get d ''paths'' = Inr paths"
    using assms(1) by (cases "js_get d ''paths''") (auto simp add: operationAt_def)
  obtain item where item: "js_get paths p = Inr item"
    using assms(1) paths by (cases "js_get paths p") (auto simp add: operationAt_def)
  have op: "js_get item m = Inr operation"
    using assms(1) paths item by (simp add: operationAt_def)
  have ci: "isContainer item" using container_parent [OF op assms(2)] .
  have cp: "isContainer paths" using container_parent [OF item ci] .
  have 1: "js_get (js_put item m operation') m = Inr operation'"
    using js_get_put_same [OF op assms(2)] .
  have 2: "js_get (js_put paths p (js_put item m operation')) p = Inr (js_put item m operation')"
    using js_get_put_same [OF item ci] .
  have 3: "js_get (js_put d ''paths'' (js_put paths p (js_put item m operation'))) ''paths''
           = Inr (js_put paths p (js_put item m operation'))"
    using js_get_put_same [OF paths cp] .
  show ?thesis using paths item 1 2 3 by (simp add: putOperation_def operationAt_def)
qed

lemma samples_container:
  "js_get operation ''x-code-samples'' = Inr v \<Longrightarrow> v \<noteq> JUndefined \<Longrightarrow> isContainer operation"
  by (cases operation) auto





lemma map_entry_same:
  "lookup kvs k = x \<Longrightarrow> AList.map_entry k (\<lambda>_. x) kvs = kvs"
  by (induction kvs) (auto simp add: lookup_def)



section \<open>Facts about a second run\<close>

lemma noWrite_refl [simp]: "noWrite c c"
  by (simp add: noWrite_def)

lemma noWrite_trans: "noWrite a b \<Longrightarrow> noWrite b c \<Longrightarrow> noWrite a c"
  by (auto simp add: noWrite_def)

lemma noWrite_log: "t \<noteq> Complete \<Longrightarrow> noWrite c (logMessage m n t c)"
  by (simp add: noWrite_def logMessage_def)

lemma noWrite_verbose: "t \<noteq> Complete \<Longrightarrow> noWrite c (messageIfVerbose g m n t c)"
  by (simp add: messageIfVerbose_def noWrite_log)

lemma sample_truthy [simp]: "js_truthy (sample s)"
  by (simp add: sample_def)

lemma keeps_entries:
  "keeps x x' \<Longrightarrow> js_get_index x i = Inr e \<Longrightarrow> js_truthy e \<Longrightarrow> js_get_index x' i = Inr e"
  unfolding keeps_def by blast

lemma addSnippets_saturates:
  assumes "addSnippets g path idx snippets (operation, console) = ((operation', console'), Normal)"
    and "js_get operation ''x-code-samples'' = Inr x" and "js_truthy x"
    and "\<forall>i<idx. \<exists>e. js_get_index x i = Inr e \<and> js_truthy e"
  shows "saturated (idx + length snippets) operation'"
  using assms
proof (induction snippets arbitrary: idx operation x console)
  case Nil
  then show ?case by (auto simp add: saturated_def)
next
  case (Cons s rest)
  show ?case
  proof (cases rule: addSnippets_cases [of g path idx s rest operation console])
    case (stop e console1)
    then show ?thesis using Cons.prems by simp
  next
    case (skip samples entry console1)
    then have run: "addSnippets g path (Suc idx) rest (operation, console1) = ((operation', console'), Normal)"
      using Cons.prems by simp
    have "samples = x" using skip(1) Cons.prems(2) by simp
    then have "\<forall>i<Suc idx. \<exists>e. js_get_index x i = Inr e \<and> js_truthy e"
      using skip(2,3) Cons.prems(4) by (auto simp add: less_Suc_eq)
    from Cons.IH [OF run Cons.prems(2,3) this] show ?thesis by simp
  next
    case (store samples entry samples' console1)
    then have run: "addSnippets g path (Suc idx) rest
        (js_put operation ''x-code-samples'' samples', console1) = ((operation', console'), Normal)"
      using Cons.prems by simp
    have x: "samples = x" using store(1) Cons.prems(2) by simp
    have k: "keeps x samples'" using keeps_set_index [OF store(2,3,4)] x by simp
    have "x \<noteq> JUndefined" using Cons.prems(3) by auto
    then have get: "js_get (js_put operation ''x-code-samples'' samples') ''x-code-samples'' = Inr samples'"
      using get_put_samples [OF Cons.prems(2)] by simp
    have t: "js_truthy samples'" using k Cons.prems(3) by (simp add: keeps_def)
    have "\<forall>i<Suc idx. \<exists>e. js_get_index samples' i = Inr e \<and> js_truthy e"
    proof (intro allI impI)
      fix i assume "i < Suc idx"
      then consider "i < idx" | "i = idx" by linarith
      then show "\<exists>e. js_get_index samples' i = Inr e \<and> js_truthy e"
      proof cases
        case 1
        then obtain e where "js_get_index x i = Inr e" "js_truthy e" using Cons.prems(4) by blast
        then show ?thesis using keeps_entries [OF k] by blast
      next
        case 2
        then show ?thesis using get_index_set_index [OF store(4)] by simp
      qed
    qed
    from Cons.IH [OF run get t this] show ?thesis by simp
  qed
qed

lemma enrichOperation_saturates:
  assumes "enrichOperation g path snippets (operation, console) = ((operation', console'), Normal)"
  shows "saturated (length snippets) operation' \<and> isContainer operation"
proof (cases rule: initCodeSamples_cases [of g operation console])
  case (stop e)
  then show ?thesis using assms by (simp add: enrichOperation_def)
next
  case (stop' e console1 field)
  then show ?thesis using assms by (simp add: enrichOperation_def)
next
  case (keep field console1)
  then have run: "addSnippets g path 0 snippets (operation, console1) = ((operation', console'), Normal)"
    using assms by (simp add: enrichOperation_def)
  have "field \<noteq> JUndefined" using keep(2) by auto
  then have "isContainer operation" using samples_container [OF keep(1)] by simp
  then show ?thesis using addSnippets_saturates [OF run keep(1,2)] by simp
next
  case (fresh field operation1 console1)
  then have run: "addSnippets g path 0 snippets (operation1, console1) = ((operation', console'), Normal)"
    using assms by (simp add: enrichOperation_def)
  have c: "isContainer operation" using fresh(3) by (cases operation) auto
  have "js_get operation1 ''x-code-samples'' = Inr (JArr [] [])" using get_set_samples [OF fresh(3)] .
  from addSnippets_saturates [OF run this] c show ?thesis by simp
qed

lemma saturated_keeps:
  assumes "opKeeps a b" and "saturated n a"
  shows "saturated n b"
proof -
  obtain x where x: "js_get a ''x-code-samples'' = Inr x" "js_truthy x"
    "\<forall>i<n. \<exists>e. js_get_index x i = Inr e \<and> js_truthy e"
    using assms(2) unfolding saturated_def by blast
  then obtain x' where x': "js_get b ''x-code-samples'' = Inr x'" "keeps x x'"
    using assms(1) unfolding opKeeps_def by blast
  have "js_truthy x'" using x'(2) x(2) by (simp add: keeps_def)
  moreover have "\<forall>i<n. \<exists>e. js_get_index x' i = Inr e \<and> js_truthy e"
    using x(3) keeps_entries [OF x'(2)] by blast
  ultimately show ?thesis using x'(1) unfolding saturated_def by blast
qed

lemma saturated_step: "saturated n a \<Longrightarrow> operationStep a b \<Longrightarrow> saturated n b"
  using saturated_keeps operationStep_keeps by blast

lemma addSnippets_saturated:
  assumes "saturated n operation" and "idx + length snippets \<le> n"
  shows "\<exists>console'. addSnippets g path idx snippets (operation, console) = ((operation, console'), Normal)
           \<and> noWrite console console'"
  using assms(2)
proof (induction snippets arbitrary: idx console)
  case Nil
  then show ?case by simp
next
  case (Cons s rest)
  have "idx < n" using Cons.prems by simp
  then obtain x e where x: "js_get operation ''x-code-samples'' = Inr x"
    "js_get_index x idx = Inr e" "js_truthy e"
    using assms(1) unfolding saturated_def by blast
  let ?c1 = "logMessage (''Field '' @ quoted (title s) @ '' already exists in ''
                        @ quoted path @ '' path, skipping.'') 2 Warning
              (messageIfVerbose g
                 (''Checking existance of '' @ quoted (title s) @ '' field...'') 1 Progress console)"
  have n: "noWrite console ?c1"
    using noWrite_trans [OF noWrite_verbose noWrite_log] by blast
  have "Suc idx + length rest \<le> n" using Cons.prems by simp
  from Cons.IH [OF this, of ?c1] obtain console' where
    r: "addSnippets g path (Suc idx) rest (operation, ?c1) = ((operation, console'), Normal)"
    "noWrite ?c1 console'" by blast
  have "addSnippets g path idx (s # rest) (operation, console) = ((operation, console'), Normal)"
    using addSnippets_skip [OF x, of g path s rest console] r(1) by simp
  moreover have "noWrite console console'" using noWrite_trans [OF n r(2)] .
  ultimately show ?case by blast
qed

lemma enrichOperation_saturated:
  assumes "saturated (length snippets) operation"
  shows "\<exists>console'. enrichOperation g path snippets (operation, console) = ((operation, console'), Normal)
           \<and> noWrite console console'"
proof -
  obtain x where x: "js_get operation ''x-code-samples'' = Inr x" "js_truthy x"
    using assms unfolding saturated_def by blast
  let ?c1 = "messageIfVerbose g (quoted ''x-code-samples'' @ '' field already exists, skipping.'') 1 Warning
            console"
  have init: "initCodeSamples g (operation, console) = ((operation, ?c1), Normal)"
    using x by (simp add: initCodeSamples_def)
  have n: "noWrite console ?c1" by (simp add: noWrite_verbose)
  obtain console' where "addSnippets g path 0 snippets (operation, ?c1) = ((operation, console'), Normal)"
    "noWrite ?c1 console'"
    using addSnippets_saturated [OF assms, of 0 snippets g path ?c1] by auto
  then have "enrichOperation g path snippets (operation, console) = ((operation, console'), Normal)"
    "noWrite console console'"
    using init noWrite_trans [OF n] by (simp_all add: enrichOperation_def)
  then show ?thesis by blast
qed

lemma js_put_same: "js_get c k = Inr v \<Longrightarrow> js_put c k v = c"
proof (cases c)
  case (JObj kvs)
  assume "js_get c k = Inr v"
  then show ?thesis using JObj by (auto simp add: map_entry_same)
next
  case (JArr xs ps)
  assume "js_get c k = Inr v"
  then show ?thesis using JArr
    by (cases "arrayIndex k") (auto simp add: map_entry_same split: if_splits)
qed auto

lemma putOperation_same:
  assumes "operationAt d p m = Inr operation"
  shows "putOperation d p m operation = d"
proof -
  obtain paths where paths: "js_get d ''paths'' = Inr paths"
    using assms(1) by (cases "js_get d ''paths''") (auto simp add: operationAt_def)
  obtain item where item: "js_get paths p = Inr item"
    using assms(1) paths by (cases "js_get paths p") (auto simp add: operationAt_def)
  have op: "js_get item m = Inr operation"
    using assms(1) paths item by (simp add: operationAt_def)
  show ?thesis
    using paths item js_put_same [OF op] js_put_same [OF item] js_put_same [OF paths]
    by (simp add: putOperation_def)
qed

lemma docRel_methodKeys:
  assumes "docRel d d'"
  shows "methodKeys d' p = methodKeys d p"
proof (cases "js_get d ''paths''")
  case (Inl e)
  have "js_get d' ''paths'' = Inl e"
    using valueRel_get_error [OF _ Inl] assms unfolding docRel_def pathsRel_def by blast
  then show ?thesis using Inl by (simp add: methodKeys_def)
next
  case (Inr paths)
  obtain paths' where paths': "js_get d' ''paths'' = Inr paths'" "childRel (childRel opStep) paths paths'"
    using docRel_paths [OF assms Inr] by blast
  show ?thesis
  proof (cases "js_get paths p")
    case (Inl e)
    have "js_get paths' p = Inl e"
      using valueRel_get_error [OF _ Inl] paths'(2) unfolding childRel_def [of "childRel opStep"] by blast
    then show ?thesis using Inl Inr paths'(1) by (simp add: methodKeys_def)
  next
    case item: (Inr item)
    obtain item' where item': "js_get paths' p = Inr item'" "childRel opStep item item'"
      using pathMapRel_item [OF paths'(2) item] by blast
    have "js_for_in item' = js_for_in item"
      using valueRel_for_in item'(2) unfolding childRel_def by blast
    then show ?thesis using Inr item paths'(1) item'(1) by (simp add: methodKeys_def)
  qed
qed

lemma methodKeys_found:
  "enrichPaths g gen ps (d, console) = ((d', console'), Normal) \<Longrightarrow> p \<in> set ps \<Longrightarrow>
   \<exists>ms. methodKeys d p = Inr ms"
proof (induction ps arbitrary: d console)
  case Nil
  then show ?case by simp
next
  case (Cons q ps)
  obtain ks where ks: "methodKeys d q = Inr ks"
    using Cons.prems(1) by (cases "methodKeys d q") simp_all
  obtain d1 console1 c1 where e: "enrichMethods g gen q ks (d, console) = ((d1, console1), c1)"
    by (metis prod.exhaust)
  have n: "c1 = Normal" using Cons.prems(1) e ks by (cases c1) simp_all
  then have rest: "enrichPaths g gen ps (d1, console1) = ((d', console'), Normal)"
    using Cons.prems(1) e ks by simp
  show ?case
  proof (cases "q = p")
    case True
    then show ?thesis using ks by simp
  next
    case False
    then have "p \<in> set ps" using Cons.prems(2) by simp
    then obtain ms where "methodKeys d1 p = Inr ms" using Cons.IH [OF rest] by blast
    then show ?thesis using docRel_methodKeys [OF enrichMethods_rel [OF e], of p] by simp
  qed
qed

subsection \<open>What a run establishes at an endpoint it visits\<close>

text \<open>
  A property of the operation at one endpoint that no round of lines 494 to 509 destroys
  holds on after every further step of a run.
\<close>

lemma atEndpoint_rel:
  assumes "\<forall>x y. I x \<longrightarrow> operationStep x y \<longrightarrow> I y" and "docRel d d'" and "atEndpoint I p m d"
  shows "atEndpoint I p m d'"
proof -
  obtain operation where o: "operationAt d p m = Inr operation" "I operation"
    using assms(3) unfolding atEndpoint_def by blast
  obtain operation' where o': "operationAt d' p m = Inr operation'" "opStep operation operation'"
    using docRel_operationAt [OF assms(2) o(1)] by blast
  have "\<And>x y. I x \<Longrightarrow> operationStep x y \<Longrightarrow> I y" using assms(1) by blast
  then have "I operation'"
    using o'(2) o(2) by (rule opStep_invariant [where I = I])
  then show ?thesis using o'(1) unfolding atEndpoint_def by blast
qed

lemma atEndpoint_reached:
  assumes "enrichEndpoint g gen p m (d, console) = ((d', console'), Normal)"
    and "\<forall>operation snippets console1 operation' console2.
           operationAt d p m = Inr operation \<longrightarrow> gen d p m (targets g) = Inr snippets \<longrightarrow>
           enrichOperation g p snippets (operation, console1) = ((operation', console2), Normal) \<longrightarrow>
           B operation'"
  shows "atEndpoint B p m d'"
proof (cases rule: enrichEndpoint_cases [of g gen p m d console])
  case (stop e console1)
  then show ?thesis using assms(1) by simp
next
  case (run snippets operation operation' console1 console2 c)
  then have c: "c = Normal" and d': "d' = putOperation d p m operation'"
    using assms(1) by simp_all
  have r: "enrichOperation g p snippets (operation, console1) = ((operation', console2), Normal)"
    using run(3) c by simp
  have "isContainer operation" using enrichOperation_saturates [OF r] by simp
  then have "operationAt d' p m = Inr operation'"
    using operationAt_putOperation [OF run(2)] d' by simp
  moreover have "B operation'" using assms(2) run(2) run(1) r by blast
  ultimately show ?thesis unfolding atEndpoint_def by blast
qed

text \<open>
  The traversal, for a path \<open>p\<close> and a method \<open>m\<close> it visits: if \<open>A\<close> holds of the
  document until the endpoint is reached, the step at the endpoint turns \<open>A\<close> into \<open>B\<close>,
  and no step of a run destroys \<open>A\<close> or \<open>B\<close>, then \<open>B\<close> holds of the document the run
  returns.
\<close>

lemma enrichMethods_reaches:
  assumes monoA: "\<forall>d d'. docRel d d' \<longrightarrow> A d \<longrightarrow> A d'"
    and monoB: "\<forall>d d'. docRel d d' \<longrightarrow> B d \<longrightarrow> B d'"
    and est: "\<forall>d console d' console'. A d \<longrightarrow>
                enrichEndpoint g gen p m (d, console) = ((d', console'), Normal) \<longrightarrow> B d'"
  shows "enrichMethods g gen p ms (d, console) = ((d', console'), Normal) \<Longrightarrow> m \<in> set ms \<Longrightarrow>
         A d \<Longrightarrow> B d'"
proof (induction ms arbitrary: d console)
  case Nil
  then show ?case by simp
next
  case (Cons k ms)
  obtain d1 console1 c1 where e: "enrichEndpoint g gen p k (d, console) = ((d1, console1), c1)"
    by (metis prod.exhaust)
  have n: "c1 = Normal" using Cons.prems(1) e by (cases c1) simp_all
  then have rest: "enrichMethods g gen p ms (d1, console1) = ((d', console'), Normal)"
    using Cons.prems(1) e by simp
  have r1: "docRel d d1" using enrichEndpoint_rel [OF e] .
  have r2: "docRel d1 d'" using enrichMethods_rel [OF rest] .
  show ?case
  proof (cases "k = m")
    case True
    then have "B d1" using est Cons.prems(3) e n by blast
    then show ?thesis using monoB r2 by blast
  next
    case False
    then have "m \<in> set ms" using Cons.prems(2) by simp
    moreover have "A d1" using monoA r1 Cons.prems(3) by blast
    ultimately show ?thesis using Cons.IH [OF rest] by simp
  qed
qed

lemma enrichPaths_reaches:
  assumes monoA: "\<forall>d d'. docRel d d' \<longrightarrow> A d \<longrightarrow> A d'"
    and monoB: "\<forall>d d'. docRel d d' \<longrightarrow> B d \<longrightarrow> B d'"
    and est: "\<forall>d console d' console'. A d \<longrightarrow>
                enrichEndpoint g gen p m (d, console) = ((d', console'), Normal) \<longrightarrow> B d'"
  shows "enrichPaths g gen ps (d, console) = ((d', console'), Normal) \<Longrightarrow> p \<in> set ps \<Longrightarrow>
         methodKeys d p = Inr ms \<Longrightarrow> m \<in> set ms \<Longrightarrow> A d \<Longrightarrow> B d'"
proof (induction ps arbitrary: d console)
  case Nil
  then show ?case by simp
next
  case (Cons q ps)
  obtain ks where ks: "methodKeys d q = Inr ks"
    using Cons.prems(1) by (cases "methodKeys d q") simp_all
  obtain d1 console1 c1 where e: "enrichMethods g gen q ks (d, console) = ((d1, console1), c1)"
    by (metis prod.exhaust)
  have n: "c1 = Normal" using Cons.prems(1) e ks by (cases c1) simp_all
  then have rest: "enrichPaths g gen ps (d1, console1) = ((d', console'), Normal)"
    using Cons.prems(1) e ks by simp
  have r1: "docRel d d1" using enrichMethods_rel [OF e] .
  have r2: "docRel d1 d'" using enrichPaths_rel [OF rest] .
  show ?case
  proof (cases "q = p")
    case True
    then have "enrichMethods g gen p ms (d, console) = ((d1, console1), Normal)"
      using e n ks Cons.prems(3) by simp
    then have "B d1"
      using enrichMethods_reaches [where A = A and B = B, OF monoA monoB est _ Cons.prems(4,5)]
      by blast
    then show ?thesis using monoB r2 by blast
  next
    case False
    then have "p \<in> set ps" using Cons.prems(2) by simp
    moreover have "methodKeys d1 p = Inr ms"
      using docRel_methodKeys [OF r1, of p] Cons.prems(3) by simp
    moreover have "A d1" using monoA r1 Cons.prems(5) by blast
    ultimately show ?thesis using Cons.IH [OF rest] Cons.prems(4) by simp
  qed
qed

lemma enrichSchema_reaches:
  assumes monoA: "\<forall>d d'. docRel d d' \<longrightarrow> A d \<longrightarrow> A d'"
    and monoB: "\<forall>d d'. docRel d d' \<longrightarrow> B d \<longrightarrow> B d'"
    and est: "\<forall>d console d' console'. A d \<longrightarrow>
                enrichEndpoint g gen p m (d, console) = ((d', console'), Normal) \<longrightarrow> B d'"
    and run: "enrichSchema g gen (d, console) = ((d', console'), Normal)"
    and visit: "js_get d ''paths'' = Inr paths" "p \<in> set (js_for_in paths)"
      "methodKeys d p = Inr ms" "m \<in> set ms"
    and start: "A d"
  shows "B d'"
proof (cases rule: enrichSchema_cases [of d g gen console])
  case (loop paths0)
  then have "enrichPaths g gen (js_for_in paths) (d, console) = ((d', console'), Normal)"
    using run visit(1) by simp
  then show ?thesis
    using enrichPaths_reaches [where A = A and B = B, OF monoA monoB est _ visit(2,3,4) start]
    by blast
qed (use run in auto)

subsection \<open>An operation whose samples are not truthy, or hold an entry that is not\<close>











subsection \<open>The second run\<close>

lemma enrichSchema_saturates:
  assumes gen: "onePerTarget gen"
    and run: "enrichSchema g gen (d, console) = ((d', console'), Normal)"
    and visit: "js_get d ''paths'' = Inr paths" "p \<in> set (js_for_in paths)"
      "methodKeys d p = Inr ms" "m \<in> set ms"
  shows "atEndpoint (saturated (length (targets g))) p m d'"
proof -
  let ?S = "saturated (length (targets g))"
  have stepB: "\<forall>x y. ?S x \<longrightarrow> operationStep x y \<longrightarrow> ?S y"
    using saturated_step by blast
  have monoA: "\<forall>d d'. docRel d d' \<longrightarrow> True \<longrightarrow> True" by simp
  have monoB: "\<forall>d d'. docRel d d' \<longrightarrow> atEndpoint ?S p m d \<longrightarrow> atEndpoint ?S p m d'"
    using atEndpoint_rel [where I = ?S, OF stepB] by blast
  have est: "\<forall>d console d' console'. True \<longrightarrow>
               enrichEndpoint g gen p m (d, console) = ((d', console'), Normal) \<longrightarrow>
               atEndpoint ?S p m d'"
  proof (intro allI impI)
    fix d console d' console'
    assume e: "enrichEndpoint g gen p m (d, console) = ((d', console'), Normal)"
    have "\<forall>operation snippets console1 operation' console2.
           operationAt d p m = Inr operation \<longrightarrow> gen d p m (targets g) = Inr snippets \<longrightarrow>
           enrichOperation g p snippets (operation, console1) = ((operation', console2), Normal) \<longrightarrow>
           ?S operation'"
    proof (intro allI impI)
      fix operation snippets console1 operation' console2
      assume s: "gen d p m (targets g) = Inr snippets"
        and r: "enrichOperation g p snippets (operation, console1) = ((operation', console2), Normal)"
      have "length snippets = length (targets g)" using gen s unfolding onePerTarget_def by blast
      then show "?S operation'" using enrichOperation_saturates [OF r] by simp
    qed
    then show "atEndpoint ?S p m d'" by (rule atEndpoint_reached [OF e])
  qed
  show ?thesis
    using enrichSchema_reaches [where A = "\<lambda>d. True" and B = "atEndpoint ?S p m",
        OF monoA monoB est run visit] by simp
qed

text \<open>
  On a document whose operations are saturated the engine changes nothing: each step
  either skips every snippet or is cut short by the generator.
\<close>

lemma enrichEndpoint_settled:
  assumes "onePerTarget gen" and "atEndpoint (saturated (length (targets g))) p m d"
  shows "\<exists>console' c. enrichEndpoint g gen p m (d, console) = ((d, console'), c)
           \<and> noWrite console console'
           \<and> (c = Normal \<or> (\<exists>e. c = Throw e \<and> gen d p m (targets g) = Inl e))"
proof (cases "gen d p m (targets g)")
  case (Inl e)
  then have "enrichEndpoint g gen p m (d, console) = ((d, console), Throw e)"
    by (simp add: enrichEndpoint_def)
  then show ?thesis using Inl noWrite_refl by blast
next
  case (Inr snippets)
  obtain operation where o: "operationAt d p m = Inr operation"
    "saturated (length (targets g)) operation"
    using assms(2) unfolding atEndpoint_def by blast
  have "length snippets = length (targets g)" using assms(1) Inr unfolding onePerTarget_def by blast
  then have s: "saturated (length snippets) operation" using o(2) by simp
  let ?c1 = "messageIfVerbose g
                (''Checking existance of '' @ quoted ''x-code-samples'' @ '' field in '' @ p
                 @ '' path...'') 1 Progress console"
  obtain console' where r: "enrichOperation g p snippets (operation, ?c1) = ((operation, console'), Normal)"
    "noWrite ?c1 console'"
    using enrichOperation_saturated [OF s] by blast
  have "enrichEndpoint g gen p m (d, console) = ((d, console'), Normal)"
    using Inr o(1) r(1) putOperation_same [OF o(1)] by (simp add: enrichEndpoint_def Let_def)
  moreover have "noWrite console console'"
    using noWrite_trans [OF noWrite_verbose r(2)] by simp
  ultimately show ?thesis by blast
qed

lemma enrichMethods_settled:
  assumes "onePerTarget gen"
  shows "\<forall>m\<in>set ms. atEndpoint (saturated (length (targets g))) p m d \<Longrightarrow>
   \<exists>console' c. enrichMethods g gen p ms (d, console) = ((d, console'), c) \<and> noWrite console console'
      \<and> (c = Normal \<or> (\<exists>e p m. c = Throw e \<and> gen d p m (targets g) = Inl e))"
proof (induction ms arbitrary: console)
  case Nil
  then show ?case by simp
next
  case (Cons m ms)
  have "atEndpoint (saturated (length (targets g))) p m d" using Cons.prems by simp
  from enrichEndpoint_settled [OF assms this, of console]
  obtain console1 c1 where e: "enrichEndpoint g gen p m (d, console) = ((d, console1), c1)"
    "noWrite console console1" "c1 = Normal \<or> (\<exists>e. c1 = Throw e \<and> gen d p m (targets g) = Inl e)"
    by blast
  show ?case
  proof (cases c1)
    case Normal
    have "\<forall>m\<in>set ms. atEndpoint (saturated (length (targets g))) p m d"
      using Cons.prems by simp
    from Cons.IH [OF this, of console1]
    obtain console' c where r: "enrichMethods g gen p ms (d, console1) = ((d, console'), c)"
      "noWrite console1 console'"
      "c = Normal \<or> (\<exists>e p m. c = Throw e \<and> gen d p m (targets g) = Inl e)"
      by blast
    have "enrichMethods g gen p (m # ms) (d, console) = ((d, console'), c)"
      using e(1) r(1) Normal by simp
    then show ?thesis using noWrite_trans [OF e(2) r(2)] r(3) by blast
  next
    case (Throw e1)
    then have "enrichMethods g gen p (m # ms) (d, console) = ((d, console1), Throw e1)"
      using e(1) by simp
    moreover have "\<exists>e p m. Throw e1 = Throw e \<and> gen d p m (targets g) = Inl e"
      using e(3) Throw by auto
    ultimately show ?thesis using e(2) by blast
  qed
qed

lemma enrichPaths_settled:
  assumes "onePerTarget gen"
  shows "\<forall>p\<in>set ps. \<exists>ms. methodKeys d p = Inr ms \<and>
            (\<forall>m\<in>set ms. atEndpoint (saturated (length (targets g))) p m d) \<Longrightarrow>
   \<exists>console' c. enrichPaths g gen ps (d, console) = ((d, console'), c) \<and> noWrite console console'
      \<and> (c = Normal \<or> (\<exists>e p m. c = Throw e \<and> gen d p m (targets g) = Inl e))"
proof (induction ps arbitrary: console)
  case Nil
  then show ?case by simp
next
  case (Cons p ps)
  obtain ms where ms: "methodKeys d p = Inr ms"
    "\<forall>m\<in>set ms. atEndpoint (saturated (length (targets g))) p m d"
    using Cons.prems by auto
  from enrichMethods_settled [OF assms ms(2), of console]
  obtain console1 c1 where e: "enrichMethods g gen p ms (d, console) = ((d, console1), c1)"
    "noWrite console console1"
    "c1 = Normal \<or> (\<exists>e p m. c1 = Throw e \<and> gen d p m (targets g) = Inl e)"
    by blast
  show ?case
  proof (cases c1)
    case Normal
    have "\<forall>p\<in>set ps. \<exists>ms. methodKeys d p = Inr ms \<and>
            (\<forall>m\<in>set ms. atEndpoint (saturated (length (targets g))) p m d)"
      using Cons.prems by simp
    from Cons.IH [OF this, of console1]
    obtain console' c where r: "enrichPaths g gen ps (d, console1) = ((d, console'), c)"
      "noWrite console1 console'"
      "c = Normal \<or> (\<exists>e p m. c = Throw e \<and> gen d p m (targets g) = Inl e)"
      by blast
    have "enrichPaths g gen (p # ps) (d, console) = ((d, console'), c)"
      using ms(1) e(1) r(1) Normal by simp
    then show ?thesis using noWrite_trans [OF e(2) r(2)] r(3) by blast
  next
    case (Throw e1)
    then have "enrichPaths g gen (p # ps) (d, console) = ((d, console1), Throw e1)"
      using ms(1) e(1) by simp
    moreover have "\<exists>e p m. Throw e1 = Throw e \<and> gen d p m (targets g) = Inl e"
      using e(3) Throw by auto
    ultimately show ?thesis using e(2) by blast
  qed
qed

lemma first_run_saturates:
  assumes "onePerTarget gen"
    and "enrichSchema g gen (schema, console) = ((schema1, console1), Normal)"
  shows "\<forall>paths1 p ms m.
            js_get schema1 ''paths'' = Inr paths1 \<and> p \<in> set (js_for_in paths1) \<and>
            methodKeys schema1 p = Inr ms \<and> m \<in> set ms \<longrightarrow>
            atEndpoint (saturated (length (targets g))) p m schema1"
proof (cases rule: enrichSchema_cases [of schema g gen console])
  case (loop paths)
  have rel: "docRel schema schema1" using enrichSchema_rel [OF assms(2)] .
  obtain paths1 where paths1: "js_get schema1 ''paths'' = Inr paths1"
    "childRel (childRel opStep) paths paths1"
    using docRel_paths [OF rel loop(2)] by blast
  have keys: "js_for_in paths1 = js_for_in paths"
    using valueRel_for_in paths1(2) unfolding childRel_def [of "childRel opStep"] by blast
  show ?thesis
  proof (intro allI impI)
    fix paths' p ms m
    assume a: "js_get schema1 ''paths'' = Inr paths' \<and> p \<in> set (js_for_in paths') \<and>
            methodKeys schema1 p = Inr ms \<and> m \<in> set ms"
    then have p: "p \<in> set (js_for_in paths)" using paths1(1) keys by simp
    have ms: "methodKeys schema p = Inr ms" using docRel_methodKeys [OF rel, of p] a by simp
    show "atEndpoint (saturated (length (targets g))) p m schema1"
      using enrichSchema_saturates [OF assms loop(2) p ms] a by blast
  qed
qed (use assms(2) in auto)

lemma second_run:
  assumes "onePerTarget gen"
    and "enrichSchema g gen (schema, console) = ((schema1, console1), Normal)"
  shows "\<exists>console2 c. enrichSchema g gen (schema1, console1) = ((schema1, console2), c)
           \<and> noWrite console1 console2
           \<and> (c = Normal \<or> (\<exists>e p m. c = Throw e \<and> gen schema1 p m (targets g) = Inl e))"
proof (cases rule: enrichSchema_cases [of schema g gen console])
  case (loop paths)
  then have run: "enrichPaths g gen (js_for_in paths) (schema, console) = ((schema1, console1), Normal)"
    using assms(2) by simp
  have rel: "docRel schema schema1" using enrichSchema_rel [OF assms(2)] .
  have own: "js_hasOwnProperty schema1 ''paths'' = Inr True"
    using valueRel_hasOwnProperty [of _ _ schema schema1 "''paths''"] rel loop(1)
    unfolding docRel_def pathsRel_def by simp
  obtain paths1 where paths1: "js_get schema1 ''paths'' = Inr paths1"
    "childRel (childRel opStep) paths paths1"
    using docRel_paths [OF rel loop(2)] by blast
  have keys: "js_for_in paths1 = js_for_in paths"
    using valueRel_for_in paths1(2) unfolding childRel_def [of "childRel opStep"] by blast
  have "\<forall>p\<in>set (js_for_in paths). \<exists>ms. methodKeys schema1 p = Inr ms \<and>
          (\<forall>m\<in>set ms. atEndpoint (saturated (length (targets g))) p m schema1)"
  proof
    fix p assume p: "p \<in> set (js_for_in paths)"
    obtain ms where ms: "methodKeys schema p = Inr ms" using methodKeys_found [OF run p] by blast
    have "methodKeys schema1 p = Inr ms" using docRel_methodKeys [OF rel, of p] ms by simp
    moreover have "\<forall>m\<in>set ms. atEndpoint (saturated (length (targets g))) p m schema1"
      using enrichSchema_saturates [OF assms loop(2) p ms] by blast
    ultimately show "\<exists>ms. methodKeys schema1 p = Inr ms \<and>
          (\<forall>m\<in>set ms. atEndpoint (saturated (length (targets g))) p m schema1)" by blast
  qed
  from enrichPaths_settled [OF assms(1) this, of console1]
  obtain console2 c where
    "enrichPaths g gen (js_for_in paths) (schema1, console1) = ((schema1, console2), c)"
    "noWrite console1 console2"
    "c = Normal \<or> (\<exists>e p m. c = Throw e \<and> gen schema1 p m (targets g) = Inl e)"
    by blast
  then show ?thesis using own paths1(1) keys by (auto simp add: enrichSchema_def)
qed (use assms(2) in auto)

section \<open>Properties of the enrichment engine\<close>

lemma arrayIndex_pets [simp]: "arrayIndex ''/pets'' = None" "arrayIndex ''get'' = None"
  by (simp_all add: arrayIndex_def isDigit_def)

lemmas run_defs =
  enrichSchema_def petsWith_def petsDocument_def petsEnriched_def indexKeys_def namedKeys_def
  methodKeys_def lookup_def enrichEndpoint_def operationAt_def
  enrichOperation_def initCodeSamples_def putOperation_def sample_def quiet_def
  curlGenerator_def curlSnippet_def messageIfVerbose_def logMessage_def rubySample_def

lemma enrichEndpoint_run:
  assumes "gen d p m (targets g) = Inr snippets" and "operationAt d p m = Inr operation"
    and "\<And>console1. \<exists>operation' console2. P operation' \<and>
           enrichOperation g p snippets (operation, console1) = ((operation', console2), Normal)"
    and "isContainer operation"
  shows "\<exists>d' console' operation'. enrichEndpoint g gen p m (d, console) = ((d', console'), Normal) \<and>
           operationAt d' p m = Inr operation' \<and> P operation'"
proof -
  let ?console1 = "messageIfVerbose g
                (''Checking existance of '' @ quoted ''x-code-samples'' @ '' field in '' @ p
                 @ '' path...'') 1 Progress console"
  obtain operation' console2 where o: "P operation'"
    "enrichOperation g p snippets (operation, ?console1) = ((operation', console2), Normal)"
    using assms(3) by blast
  have "enrichEndpoint g gen p m (d, console) = ((putOperation d p m operation', console2), Normal)"
    using assms(1,2) o(2) by (simp add: enrichEndpoint_def Let_def)
  then show ?thesis using o(1) operationAt_putOperation [OF assms(2,4)] by blast
qed

text \<open>
  C6. The end-to-end example of the specification. The document is
  \<open>{paths: {/pets: {get: {}}}}\<close>, the target set is \<open>[shell_curl]\<close>, and the generator
  returns for that operation the single snippet with title \<open>shell_curl\<close> and content
  \<open>curl ...\<close>. Then \<open>enrichSchema\<close> returns, and the document is
  \<open>{paths: {/pets: {get: {x-code-samples: [{lang: shell_curl, source: curl ...}]}}}}\<close>:
  the title of the snippet became \<open>lang\<close> and its content \<open>source\<close>.
\<close>

theorem end_to_end_example:
  assumes "gen petsDocument ''/pets'' ''get'' [''shell_curl''] = Inr [curlSnippet]"
    and "targets g = [''shell_curl'']"
  shows "\<exists>console'. enrichSchema g gen (petsDocument, console) = ((petsEnriched, console'), Normal)"
  using assms by (simp add: run_defs)

theorem end_to_end_example_witness:
  "curlGenerator petsDocument ''/pets'' ''get'' [''shell_curl''] = Inr [curlSnippet] \<and>
   targets quiet = [''shell_curl''] \<and>
   enrichSchema quiet curlGenerator (petsDocument, []) = ((petsEnriched, []), Normal)"
  using end_to_end_example [of curlGenerator quiet "[]"] by (simp add: run_defs)

text \<open>
  C9. Frame condition. Whatever the document, the generator and the way the call ends, the
  document \<open>enrichSchema\<close> leaves behind equals the one it was given once
  \<open>x-code-samples\<close> is deleted from every \<open>schema.paths[path][method]\<close>. So these
  properties are all that changes: every other property of an operation, the keys of
  \<open>paths\<close> and of every path item with their order, and all of the document outside
  \<open>paths\<close> are as they were. The call returns the document it was given, in the state it
  left it; that state is the result of the model.
\<close>

theorem enrichment_frame:
  "withoutSamples (fst (fst (enrichSchema g gen (schema, console)))) = withoutSamples schema"
proof -
  obtain schema' console' c where e: "enrichSchema g gen (schema, console) = ((schema', console'), c)"
    by (metis prod.exhaust)
  then show ?thesis using withoutSamples_rel [OF enrichSchema_rel [OF e]] by simp
qed

text \<open>
  C2. The document \<open>{hasOwnProperty: 1}\<close> has no key \<open>paths\<close>, but its own property
  \<open>hasOwnProperty\<close> shadows the method of \<open>Object.prototype\<close>, so that line 487 calls
  the number 1. The call of \<open>enrichSchema\<close> fails with a \<open>TypeError\<close>, not with the
  \<open>PropertyError\<close> that names \<open>paths\<close>. The document is not changed.
\<close>

theorem shadowed_hasOwnProperty:
  "enrichSchema g gen (shadowedDocument, console) = ((shadowedDocument, console), Throw TypeError)"
  by (simp add: enrichSchema_def shadowedDocument_def)

text \<open>
  Without that shadowing, a document that is an object without the key \<open>paths\<close> makes
  \<open>enrichSchema\<close> throw the \<open>PropertyError\<close> for \<open>paths\<close>, and the document and the
  console are as they were.
\<close>

lemma missing_paths:
  assumes "''paths'' \<notin> fst ` set kvs" and "''hasOwnProperty'' \<notin> fst ` set kvs"
  shows "enrichSchema g gen (JObj kvs, console) = ((JObj kvs, console), Throw (PropertyError ''paths''))"
proof -
  have "map_of kvs ''paths'' = None" "map_of kvs ''hasOwnProperty'' = None"
    using assms by (simp_all add: map_of_eq_None_iff)
  then show ?thesis by (simp add: enrichSchema_def)
qed

text \<open>
  C1, as it is stated, fails on an entry that is not truthy. The operation has the samples
  \<open>[null]\<close>: an entry occupies index 0. Enrichment with a generator that returns one
  snippet writes the generated sample over it.
\<close>

theorem falsy_entry_counterexample:
  "operationAt (petsWith (JObj [(''x-code-samples'', JArr [JNull] [])])) ''/pets'' ''get''
     = Inr (JObj [(''x-code-samples'', JArr [JNull] [])]) \<and>
   enrichSchema quiet curlGenerator (petsWith (JObj [(''x-code-samples'', JArr [JNull] [])]), [])
     = ((petsWith (JObj [(''x-code-samples'', JArr [sample curlSnippet] [])]), []), Normal) \<and>
   sample curlSnippet \<noteq> JNull"
  by (simp add: run_defs)

text \<open>
  C1, amended to truthy entries. Let the operation at a path and a method hold an array of
  samples whose entry at index \<open>i\<close> is truthy (every object is, whatever its content or
  language). Then, whatever the generator returns and however the call of \<open>enrichSchema\<close>
  ends, the operation still holds an array of samples with that same entry at index \<open>i\<close>.
  And the round of the loop for index \<open>i\<close> leaves the operation as it is, whatever the
  snippet generated for that index: it prints the notice that the field already exists
  (after the line that announces the check, when the script is verbose) and goes on with
  index \<open>i + 1\<close>.
\<close>

theorem truthy_entry_is_kept:
  assumes "operationAt schema path method = Inr operation"
    and "js_get operation ''x-code-samples'' = Inr (JArr xs ps)"
    and "i < length xs" and "js_truthy (xs ! i)"
  shows "(\<exists>operation' xs'.
            operationAt (fst (fst (enrichSchema g gen (schema, console)))) path method = Inr operation' \<and>
            js_get operation' ''x-code-samples'' = Inr (JArr xs' ps) \<and>
            i < length xs' \<and> xs' ! i = xs ! i) \<and>
         addSnippets g path i (snippet # rest) (operation, console1) =
           addSnippets g path (Suc i) rest
             (operation,
              logMessage (''Field '' @ quoted (title snippet) @ '' already exists in ''
                          @ quoted path @ '' path, skipping.'') 2 Warning
                (messageIfVerbose g
                   (''Checking existance of '' @ quoted (title snippet) @ '' field...'') 1 Progress console1))"
proof
  obtain schema' console' c where e: "enrichSchema g gen (schema, console) = ((schema', console'), c)"
    by (metis prod.exhaust)
  from kept_entries [OF assms(1,2) e] assms(3,4) e
  show "\<exists>operation' xs'.
            operationAt (fst (fst (enrichSchema g gen (schema, console)))) path method = Inr operation' \<and>
            js_get operation' ''x-code-samples'' = Inr (JArr xs' ps) \<and>
            i < length xs' \<and> xs' ! i = xs ! i"
    by fastforce
next
  have "js_get_index (JArr xs ps) i = Inr (xs ! i)" using assms(3) by simp
  from addSnippets_skip [OF assms(2) this assms(4)]
  show "addSnippets g path i (snippet # rest) (operation, console1) =
           addSnippets g path (Suc i) rest
             (operation,
              logMessage (''Field '' @ quoted (title snippet) @ '' already exists in ''
                          @ quoted path @ '' path, skipping.'') 2 Warning
                (messageIfVerbose g
                   (''Checking existance of '' @ quoted (title snippet) @ '' field...'') 1 Progress console1))" .
qed

theorem truthy_entry_is_kept_witness:
  "operationAt (petsWith (JObj [(''x-code-samples'', JArr [rubySample] [])])) ''/pets'' ''get''
     = Inr (JObj [(''x-code-samples'', JArr [rubySample] [])]) \<and>
   js_get (JObj [(''x-code-samples'', JArr [rubySample] [])]) ''x-code-samples'' = Inr (JArr [rubySample] []) \<and>
   0 < length [rubySample] \<and> js_truthy ([rubySample] ! 0) \<and>
   enrichSchema quiet curlGenerator (petsWith (JObj [(''x-code-samples'', JArr [rubySample] [])]), [])
     = ((petsWith (JObj [(''x-code-samples'', JArr [rubySample] [])]),
         [(''Field '' @ quoted ''shell_curl'' @ '' already exists in '' @ quoted ''/pets'' @ '' path, skipping.'',
           2, Warning)]), Normal)"
  using truthy_entry_is_kept [of "petsWith (JObj [(''x-code-samples'', JArr [rubySample] [])])"
      "''/pets''" "''get''" "JObj [(''x-code-samples'', JArr [rubySample] [])]" "[rubySample]" "[]" 0
      quiet curlGenerator "[]" curlSnippet "[]" "[]"]
  by (simp add: run_defs)


lemma update_absent: "map_of kvs k = None \<Longrightarrow> AList.update k v kvs = kvs @ [(k, v)]"
  by (induction kvs) (auto split: if_splits)

text \<open>
  C4, as it is stated, fails on a field that holds a value that is not truthy. The
  operation has the own property \<open>x-code-samples\<close> with the value \<open>null\<close>; enrichment
  replaces it by a new array and writes the generated sample there.
\<close>

theorem null_field_counterexample:
  "js_hasOwnProperty (JObj [(''x-code-samples'', JNull)]) ''x-code-samples'' = Inr True \<and>
   operationAt (petsWith (JObj [(''x-code-samples'', JNull)])) ''/pets'' ''get''
     = Inr (JObj [(''x-code-samples'', JNull)]) \<and>
   enrichSchema quiet curlGenerator (petsWith (JObj [(''x-code-samples'', JNull)]), [])
     = ((petsWith (JObj [(''x-code-samples'', JArr [sample curlSnippet] [])]), []), Normal)"
  by (simp add: run_defs)

text \<open>
  C4, amended to truthy values. An operation (an object) without the property
  \<open>x-code-samples\<close> receives it, as an empty array and as its last property, before the
  loop over the snippets starts. A property that holds a truthy value (any array, the
  empty one included) is left as it is by that step. And whatever the generator returns
  and however the call of \<open>enrichSchema\<close> ends, an operation that held an array of samples
  still holds one, no shorter, with every truthy entry of the old array at its index,
  whether this generator produced it or not.
\<close>

theorem samples_field_initialised_or_kept:
  "(map_of kvs ''x-code-samples'' = None \<longrightarrow>
      enrichOperation g path snippets (JObj kvs, console) =
        addSnippets g path 0 snippets
          (JObj (kvs @ [(''x-code-samples'', JArr [] [])]),
           messageIfVerbose g (''Added '' @ quoted ''x-code-samples'' @ '' field.'') 1 Complete console)) \<and>
   (js_get operation ''x-code-samples'' = Inr field \<and> js_truthy field \<longrightarrow>
      initCodeSamples g (operation, console) =
        ((operation,
          messageIfVerbose g (quoted ''x-code-samples'' @ '' field already exists, skipping.'') 1 Warning
            console), Normal)) \<and>
   (operationAt schema path method = Inr operation \<and>
    js_get operation ''x-code-samples'' = Inr (JArr xs ps) \<longrightarrow>
      (\<exists>operation' xs'.
         operationAt (fst (fst (enrichSchema g gen (schema, console)))) path method = Inr operation' \<and>
         js_get operation' ''x-code-samples'' = Inr (JArr xs' ps) \<and> length xs \<le> length xs' \<and>
         (\<forall>i<length xs. js_truthy (xs ! i) \<longrightarrow> xs' ! i = xs ! i)))"
proof (intro conjI impI)
  assume "map_of kvs ''x-code-samples'' = None"
  then show "enrichOperation g path snippets (JObj kvs, console) =
        addSnippets g path 0 snippets
          (JObj (kvs @ [(''x-code-samples'', JArr [] [])]),
           messageIfVerbose g (''Added '' @ quoted ''x-code-samples'' @ '' field.'') 1 Complete console)"
    by (simp add: enrichOperation_def initCodeSamples_def lookup_def update_absent Let_def)
next
  assume "js_get operation ''x-code-samples'' = Inr field \<and> js_truthy field"
  then show "initCodeSamples g (operation, console) =
        ((operation,
          messageIfVerbose g (quoted ''x-code-samples'' @ '' field already exists, skipping.'') 1 Warning
            console), Normal)"
    by (simp add: initCodeSamples_def)
next
  assume a: "operationAt schema path method = Inr operation \<and>
    js_get operation ''x-code-samples'' = Inr (JArr xs ps)"
  obtain schema' console' c where e: "enrichSchema g gen (schema, console) = ((schema', console'), c)"
    by (metis prod.exhaust)
  from kept_entries [OF _ _ e, of path "method" operation xs ps] a e
  show "\<exists>operation' xs'.
         operationAt (fst (fst (enrichSchema g gen (schema, console)))) path method = Inr operation' \<and>
         js_get operation' ''x-code-samples'' = Inr (JArr xs' ps) \<and> length xs \<le> length xs' \<and>
         (\<forall>i<length xs. js_truthy (xs ! i) \<longrightarrow> xs' ! i = xs ! i)"
    by simp
qed

theorem samples_field_initialised_or_kept_witness:
  "map_of ([] :: (string \<times> jsval) list) ''x-code-samples'' = None \<and>
   enrichOperation quiet ''/pets'' [curlSnippet] (JObj [], [])
     = ((JObj [(''x-code-samples'', JArr [sample curlSnippet] [])], []), Normal) \<and>
   js_get (JObj [(''x-code-samples'', JArr [] [])]) ''x-code-samples'' = Inr (JArr [] []) \<and>
   js_truthy (JArr [] []) \<and>
   initCodeSamples quiet (JObj [(''x-code-samples'', JArr [] [])], [])
     = ((JObj [(''x-code-samples'', JArr [] [])], []), Normal) \<and>
   operationAt (petsWith (JObj [(''x-code-samples'', JArr [] [])])) ''/pets'' ''get''
     = Inr (JObj [(''x-code-samples'', JArr [] [])]) \<and>
   enrichSchema quiet curlGenerator (petsWith (JObj [(''x-code-samples'', JArr [] [])]), [])
     = ((petsWith (JObj [(''x-code-samples'', JArr [sample curlSnippet] [])]), []), Normal)"
  using samples_field_initialised_or_kept [of "[]" quiet "''/pets''" "[curlSnippet]" "[]"
      "JObj [(''x-code-samples'', JArr [] [])]" "JArr [] []"
      "petsWith (JObj [(''x-code-samples'', JArr [] [])])" "''get''" "[]" "[]" curlGenerator]
  by (simp add: run_defs)



text \<open>
  C3. The generator is a function of its arguments, and it keeps its contract: one
  snippet per requested target. When a run of \<open>enrichSchema\<close> has returned, every
  operation it visited holds a truthy entry at every generated index, and a second run
  with the same targets on the document it left leaves that document exactly as it is.
  Every message the second run prints is a notice or a progress line, none reports an
  added field or sample, even when the script is verbose: no sample is written. The
  second run returns, unless the generator itself fails on the enriched document, which
  ends the run with the document as it was.
\<close>

theorem second_run_changes_nothing:
  assumes "onePerTarget gen"
    and "enrichSchema g gen (schema, console) = ((schema1, console1), Normal)"
  shows "(\<forall>paths path methods method.
            js_get schema1 ''paths'' = Inr paths \<and> path \<in> set (js_for_in paths) \<and>
            methodKeys schema1 path = Inr methods \<and> method \<in> set methods \<longrightarrow>
            atEndpoint (saturated (length (targets g))) path method schema1) \<and>
         (\<exists>msgs c. enrichSchema g gen (schema1, console1) = ((schema1, console1 @ msgs), c) \<and>
            Complete \<notin> (snd \<circ> snd) ` set msgs \<and>
            (c = Normal \<or> (\<exists>e path method. c = Throw e \<and> gen schema1 path method (targets g) = Inl e)))"
  using first_run_saturates [OF assms] second_run [OF assms] unfolding noWrite_def by blast

theorem second_run_changes_nothing_witness:
  "onePerTarget targetGenerator \<and>
   enrichSchema quiet targetGenerator (petsDocument, []) = ((petsEnriched, []), Normal) \<and>
   atEndpoint (saturated (length (targets quiet))) ''/pets'' ''get'' petsEnriched \<and>
   enrichSchema quiet targetGenerator (petsEnriched, [])
     = ((petsEnriched,
         [(''Field '' @ quoted ''shell_curl'' @ '' already exists in '' @ quoted ''/pets'' @ '' path, skipping.'',
           2, Warning)]), Normal)"
  using second_run_changes_nothing [of targetGenerator quiet petsDocument "[]" petsEnriched "[]"]
  by (simp add: run_defs onePerTarget_def targetGenerator_def atEndpoint_def saturated_def)

section \<open>Facts about the run of the script\<close>

lemma say_sel [simp]:
  "io (say m n t p) = io p" "files (say m n t p) = files p" "ending (say m n t p) = ending p"
  "isVerbose (say m n t p) = isVerbose p" "targets (say m n t p) = targets p"
  "printed (say m n t p) = printed p @ [(m, n, t)]"
  by (simp_all add: say_def logMessage_def)

lemma exit_sel [simp]:
  "io (exit c p) = io p" "files (exit c p) = files p" "ending (exit c p) = Exit c"
  "isVerbose (exit c p) = isVerbose p" "targets (exit c p) = targets p"
  "printed (exit c p) = printed p"
  by (simp_all add: exit_def)

lemma start_sel [simp]:
  "io (start fs) = []" "files (start fs) = fs" "ending (start fs) = Running"
  "isVerbose (start fs) = False" "targets (start fs) = defaultTargets" "printed (start fs) = []"
  by (simp_all add: start_def)

lemma andThen_stopped [simp]: "ending p \<noteq> Running \<Longrightarrow> andThen p f = p"
  by (simp add: andThen_def)

lemma andThen_running [simp]: "ending p = Running \<Longrightarrow> andThen p f = f p"
  by (simp add: andThen_def)

lemma checkParameters_passes:
  "4 \<le> length argv \<Longrightarrow>
   io (checkParameters argv p) = io p \<and> files (checkParameters argv p) = files p \<and>
   ending (checkParameters argv p) = ending p \<and> targets (checkParameters argv p) = targets p \<and>
   isVerbose (checkParameters argv p) = (last argv = ''-v'' \<or> last argv = ''--verbose'' \<or> isVerbose p)"
  by (simp add: checkParameters_def)

lemma checkTargets_frame:
  "io (checkTargets ts p) = io p \<and> files (checkTargets ts p) = files p \<and>
   targets (checkTargets ts p) = targets p \<and> isVerbose (checkTargets ts p) = isVerbose p"
  by (induction ts) simp_all

lemma checkTargets_valid:
  "find (\<lambda>t. t \<notin> set validTargets) ts = None \<Longrightarrow> checkTargets ts p = p"
  by (induction ts) (simp_all split: if_splits)

lemma checkTargets_invalid:
  "find (\<lambda>t. t \<notin> set validTargets) ts = Some t \<Longrightarrow>
   checkTargets ts p = exit 1 (say (''Target '' @ quoted t @ '' is not valid'') 0 Erroneous p)"
  by (induction ts) (simp_all split: if_splits)

lemma checkTargets_ending:
  "ending (checkTargets ts p) = ending p \<or> ending (checkTargets ts p) = Exit 1"
  by (cases "find (\<lambda>t. t \<notin> set validTargets) ts")
     (simp_all add: checkTargets_valid checkTargets_invalid)

lemma configureTargets_frame:
  "io (configureTargets argv p) = io p \<and> files (configureTargets argv p) = files p"
  by (simp add: configureTargets_def Let_def andThen_def checkTargets_frame)

lemma configureTargets_ending:
  "ending p = Running \<Longrightarrow>
   ending (configureTargets argv p) = Running \<or> ending (configureTargets argv p) = Exit 1"
  using checkTargets_ending [of "targetsToCheck argv (say ''Validating targets...'' 0 Progress p)"
      "say ''Validating targets...'' 0 Progress p"]
  by (auto simp add: configureTargets_def Let_def andThen_def)

text \<open>
  C8. A requested output file whose name does not end in \<open>json\<close> (the test of
  \<open>checkOutputFileType\<close>) ends the run with exit code 1 before any call to the file
  system: nothing is read, removed or written, and the file system is as it was.
\<close>

theorem output_file_gate:
  assumes "4 \<le> length argv" and "\<not> endsWith (argv ! 3) ''json''"
  shows "ending (script env argv fs) = Exit 1 \<and> io (script env argv fs) = []
         \<and> files (script env argv fs) = fs"
proof -
  let ?p1 = "checkParameters argv (start fs)"
  let ?p2 = "configureTargets argv ?p1"
  have p1: "ending ?p1 = Running" "io ?p1 = []" "files ?p1 = fs"
    using checkParameters_passes [OF assms(1), of "start fs"] by simp_all
  have p2: "io ?p2 = []" "files ?p2 = fs"
    using configureTargets_frame [of argv ?p1] p1 by simp_all
  consider (stop) "ending ?p2 = Exit 1" | (go) "ending ?p2 = Running"
    using configureTargets_ending [OF p1(1), of argv] by blast
  then show ?thesis
  proof cases
    case stop
    then have "script env argv fs = ?p2"
      using p1 by (simp add: script_def processInputs_def)
    then show ?thesis using stop p2 by simp
  next
    case go
    then have "script env argv fs = checkOutputFileType (argv ! 3) ?p2"
      using p1 assms(2) by (simp add: script_def processInputs_def checkOutputFileType_def)
    then show ?thesis using assms(2) p2 by (simp add: checkOutputFileType_def)
  qed
qed

theorem output_file_gate_witness:
  "4 \<le> length [''node'', ''parse.js'', ''spec.json'', ''result.yaml''] \<and>
   \<not> endsWith ([''node'', ''parse.js'', ''spec.json'', ''result.yaml''] ! 3) ''json'' \<and>
   ending (script emptyDisk [''node'', ''parse.js'', ''spec.json'', ''result.yaml''] ()) = Exit 1 \<and>
   io (script emptyDisk [''node'', ''parse.js'', ''spec.json'', ''result.yaml''] ()) = []"
  using output_file_gate [of "[''node'', ''parse.js'', ''spec.json'', ''result.yaml'']" emptyDisk "()"]
  by (simp add: endsWith_def)

text \<open>
  C5. The vocabulary \<open>validTargets\<close> has 22 identifiers. When the first token after the
  output file is not \<open>default\<close> and some identifier of the supplied list (the arguments
  from the fifth on, without a closing verbosity flag) is outside the vocabulary, the run
  ends with exit code 1, its last message names the first such identifier, and the file
  system was never called. When the first token is \<open>default\<close>, \<open>configureTargets\<close>
  checks no token, reports no error, lets the run go on and leaves the default targets in
  place, whatever follows the token.
\<close>

theorem invalid_target_is_fatal:
  "length validTargets = 22 \<and>
   (4 < length argv \<and> argv ! 4 \<noteq> ''default'' \<and>
    find (\<lambda>t. t \<notin> set validTargets) (targetsToCheck argv (checkParameters argv (start fs))) = Some t
    \<longrightarrow> ending (script env argv fs) = Exit 1 \<and> io (script env argv fs) = [] \<and>
        files (script env argv fs) = fs \<and>
        last (printed (script env argv fs)) = (''Target '' @ quoted t @ '' is not valid'', 0, Erroneous)) \<and>
   (4 < length argv \<and> argv ! 4 = ''default''
    \<longrightarrow> targets (configureTargets argv (checkParameters argv (start fs))) = defaultTargets \<and>
        ending (configureTargets argv (checkParameters argv (start fs))) = Running \<and>
        Erroneous \<notin> (snd \<circ> snd) ` set (printed (configureTargets argv (checkParameters argv (start fs)))))"
proof (intro conjI impI)
  show "length validTargets = 22" by (simp add: validTargets_def)
next
  let ?p1 = "checkParameters argv (start fs)"
  let ?q = "say ''Validating targets...'' 0 Progress ?p1"
  assume a: "4 < length argv \<and> argv ! 4 \<noteq> ''default'' \<and>
    find (\<lambda>t. t \<notin> set validTargets) (targetsToCheck argv ?p1) = Some t"
  then have len: "4 \<le> length argv" by simp
  have p1: "ending ?p1 = Running" "io ?p1 = []" "files ?p1 = fs"
    using checkParameters_passes [OF len, of "start fs"] by simp_all
  have same: "targetsToCheck argv ?q = targetsToCheck argv ?p1"
    by (simp add: targetsToCheck_def)
  have "configureTargets argv ?p1 = exit 1 (say (''Target '' @ quoted t @ '' is not valid'') 0 Erroneous ?q)"
    using a same checkTargets_invalid [of "targetsToCheck argv ?p1" t ?q]
    by (simp add: configureTargets_def Let_def)
  moreover have "script env argv fs = configureTargets argv ?p1"
    using p1 calculation by (simp add: script_def processInputs_def)
  ultimately have s: "script env argv fs = exit 1 (say (''Target '' @ quoted t @ '' is not valid'') 0 Erroneous ?q)"
    by simp
  show "ending (script env argv fs) = Exit 1" by (simp add: s)
  show "io (script env argv fs) = []" using p1 by (simp add: s)
  show "files (script env argv fs) = fs" using p1 by (simp add: s)
  show "last (printed (script env argv fs)) = (''Target '' @ quoted t @ '' is not valid'', 0, Erroneous)"
    by (simp add: s)
next
  let ?p1 = "checkParameters argv (start fs)"
  assume a: "4 < length argv \<and> argv ! 4 = ''default''"
  then have len: "4 \<le> length argv" by simp
  have p1: "ending ?p1 = Running" "targets ?p1 = defaultTargets"
    using checkParameters_passes [OF len, of "start fs"] by simp_all
  have c: "configureTargets argv ?p1 =
      say ''Default specified, skipping.'' 1 Complete (say ''Validating targets...'' 0 Progress ?p1)"
    using a by (simp add: configureTargets_def Let_def)
  show "targets (configureTargets argv ?p1) = defaultTargets" using p1 by (simp add: c)
  show "ending (configureTargets argv ?p1) = Running" using p1 by (simp add: c)
  have "printed ?p1 = [] \<or> printed ?p1 = [(''Switching to verbose logging'', 0, Progress)]"
    using len by (simp add: checkParameters_def)
  then show "Erroneous \<notin> (snd \<circ> snd) ` set (printed (configureTargets argv ?p1))"
    by (auto simp add: c)
qed

theorem invalid_target_is_fatal_witness:
  "find (\<lambda>t. t \<notin> set validTargets)
     (targetsToCheck [''node'', ''parse.js'', ''spec.json'', ''out.json'', ''go_native'', ''cobol'', ''-v'']
        (checkParameters [''node'', ''parse.js'', ''spec.json'', ''out.json'', ''go_native'', ''cobol'', ''-v'']
           (start ()))) = Some ''cobol'' \<and>
   ending (script emptyDisk [''node'', ''parse.js'', ''spec.json'', ''out.json'', ''go_native'', ''cobol'', ''-v''] ())
     = Exit 1 \<and>
   last (printed (script emptyDisk [''node'', ''parse.js'', ''spec.json'', ''out.json'', ''go_native'', ''cobol'', ''-v''] ()))
     = (''Target '' @ quoted ''cobol'' @ '' is not valid'', 0, Erroneous) \<and>
   [''node'', ''parse.js'', ''spec.json'', ''out.json'', ''default'', ''cobol''] ! 4 = ''default'' \<and>
   targets (configureTargets [''node'', ''parse.js'', ''spec.json'', ''out.json'', ''default'', ''cobol'']
     (checkParameters [''node'', ''parse.js'', ''spec.json'', ''out.json'', ''default'', ''cobol''] (start ())))
     = defaultTargets"
  using invalid_target_is_fatal [of "[''node'', ''parse.js'', ''spec.json'', ''out.json'', ''go_native'', ''cobol'', ''-v'']" "()" "''cobol''" emptyDisk]
    invalid_target_is_fatal [of "[''node'', ''parse.js'', ''spec.json'', ''out.json'', ''default'', ''cobol'']" "()" "''cobol''" emptyDisk]
  by (simp add: targetsToCheck_def checkParameters_def validTargets_def)

text \<open>
  C7. With the arguments \<open>spec.json out.json -v\<close> the caller supplies no target, only
  the verbosity flag. \<open>configureTargets\<close> then takes the branch for supplied targets (the
  script has more than four arguments), checks the empty list left once the flag is cut
  off, and sets \<open>targets\<close> to it: the target set is empty, not the default list, and no
  warning is printed.
\<close>

theorem verbose_flag_alone_empties_targets:
  "targets (configureTargets [''node'', ''parse.js'', ''spec.json'', ''out.json'', ''-v'']
     (checkParameters [''node'', ''parse.js'', ''spec.json'', ''out.json'', ''-v''] (start ()))) = [] \<and>
   printed (configureTargets [''node'', ''parse.js'', ''spec.json'', ''out.json'', ''-v'']
     (checkParameters [''node'', ''parse.js'', ''spec.json'', ''out.json'', ''-v''] (start ())))
     = [(''Switching to verbose logging'', 0, Progress), (''Validating targets...'', 0, Progress),
        (''All specified targets are valid'', 1, Complete)]"
  by (simp add: configureTargets_def checkParameters_def targetsToCheck_def Let_def)

text \<open>
  When nothing at all follows the output file, the default list is kept, the run goes
  on, and the last message is the warning.
\<close>

lemma no_arguments_after_output:
  assumes "length argv = 4"
  shows "targets (configureTargets argv (checkParameters argv (start fs))) = defaultTargets \<and>
         ending (configureTargets argv (checkParameters argv (start fs))) = Running \<and>
         snd (snd (last (printed (configureTargets argv (checkParameters argv (start fs)))))) = Warning \<and>
         defaultTargets = [''php_curl'', ''javascript_xhr'', ''java_okhttp'', ''python_requests'',
                           ''python_python3'', ''go_native'', ''shell_curl'']"
  using assms by (simp add: configureTargets_def checkParameters_def defaultTargets_def)

end
